theory Spec2Isabelle
  imports Main "HOL-Library.AList" "HOL-Library.Sublist" "HOL-Library.Word"
begin

section \<open>The task entity\<close>

text \<open>
  \<^verbatim>\<open>scheduler/resource/task_manager.go\<close> uses four members of \<^verbatim>\<open>*Task\<close>: the field
  \<^verbatim>\<open>ID\<close>, the state machine \<^verbatim>\<open>FSM\<close> (with \<^verbatim>\<open>Is\<close> and \<^verbatim>\<open>Event\<close>), the method
  \<^verbatim>\<open>PeerCount()\<close> and the logger \<^verbatim>\<open>Log\<close>. The declaration of \<^verbatim>\<open>Task\<close> is in
  \<^verbatim>\<open>task.go\<close>, which is not among the sources, so the entity is modelled from the
  specification (sections 3, 4.1 and 4.3).
\<close>

text \<open>Modelled from the spec: the states and events of the task state machine
  (section 4.1); the source names only \<^verbatim>\<open>TaskStateLeave\<close> and \<^verbatim>\<open>TaskEventLeave\<close>.\<close>

datatype TaskState =
  TaskStatePending | TaskStateRunning | TaskStateSeeding
  | TaskStateSucceeded | TaskStateFailed | TaskStateLeave

datatype TaskEvent =
  TaskEventDownload | TaskEventSeed | TaskEventSucceed | TaskEventFail | TaskEventLeave

text \<open>Modelled from the spec: a state machine is its current state and its transition
  table (state and event to next state, or no entry when the event is illegal there).
  The table is a field, so every result below holds for every table.\<close>

record fsm =
  current :: TaskState
  transitions :: "TaskEvent \<times> TaskState \<Rightarrow> TaskState option"

datatype fsm_error = StateTransitionError TaskState TaskEvent

text \<open>Modelled from the spec: \<open>Is\<close> tests the current state.\<close>

definition Is :: "fsm \<Rightarrow> TaskState \<Rightarrow> bool" where
  "Is f s = (current f = s)"

text \<open>Modelled from the spec: an event that is not defined for the current state fails
  with a \<open>StateTransitionError\<close> naming the state and the event, and changes nothing.\<close>

definition Event :: "fsm \<Rightarrow> TaskEvent \<Rightarrow> fsm_error + fsm" where
  "Event f e =
     (case transitions f (e, current f) of
        None \<Rightarrow> Inl (StateTransitionError (current f) e)
      | Some s \<Rightarrow> Inr (f\<lparr>current := s\<rparr>))"

text \<open>Modelled from the spec: the transition table of section 4.1, used for the concrete
  instances. \<open>Leave\<close> can be entered from every state but \<open>Leave\<close>, which is terminal.\<close>

fun task_transitions :: "TaskEvent \<times> TaskState \<Rightarrow> TaskState option" where
  "task_transitions (TaskEventDownload, TaskStatePending) = Some TaskStateRunning"
| "task_transitions (TaskEventSeed, TaskStateRunning) = Some TaskStateSeeding"
| "task_transitions (TaskEventSucceed, TaskStateRunning) = Some TaskStateSucceeded"
| "task_transitions (TaskEventSucceed, TaskStateSeeding) = Some TaskStateSucceeded"
| "task_transitions (TaskEventFail, TaskStateRunning) = Some TaskStateFailed"
| "task_transitions (TaskEventFail, TaskStateSeeding) = Some TaskStateFailed"
| "task_transitions (TaskEventLeave, TaskStateLeave) = None"
| "task_transitions (TaskEventLeave, _) = Some TaskStateLeave"
| "task_transitions _ = None"

text \<open>Modelled from the spec: the peer scheduling graph of a task (sections 3 and 4.3),
  its nodes the peer IDs and its edges the pairs (parent, child).\<close>

record dag =
  vertices :: "string list"
  edges :: "(string \<times> string) list"

text \<open>Modelled from the spec: the members of a task that the registry, the sweep and the
  graph operations read: its identity, its URL, its state machine and its graph.\<close>

record Task =
  ID :: string
  URL :: string
  FSM :: fsm
  DAG :: dag

text \<open>Modelled from the spec: a task's peer count is the node count of its graph.\<close>

definition PeerCount :: "Task \<Rightarrow> nat" where
  "PeerCount task = length (vertices (DAG task))"

text \<open>Modelled from the spec: a task is created in the state \<open>Pending\<close> with an empty
  graph (sections 3 and 4.1).\<close>

definition NewTask :: "string \<Rightarrow> string \<Rightarrow> Task" where
  "NewTask taskID url =
     \<lparr>ID = taskID, URL = url,
      FSM = \<lparr>current = TaskStatePending, transitions = task_transitions\<rparr>,
      DAG = \<lparr>vertices = [], edges = []\<rparr>\<rparr>"

subsection \<open>The peer scheduling graph\<close>

text \<open>
  The operations of a task on its graph are in \<^verbatim>\<open>task.go\<close> and the graph package, which
  are not among the sources; they are modelled from section 4.3 of the specification.
\<close>

text \<open>Modelled from the spec: the errors of the graph operations. \<open>CycleError\<close> is the
  error of section 7. The specification makes the membership of both peers a precondition
  of \<open>AddPeerEdge\<close> and names no error for a call that violates it; an edge may exist only
  between registered nodes (section 3), so such a call is rejected, with \<open>PeerNotFound\<close>.\<close>

datatype graph_error = CycleError | PeerNotFound

text \<open>Modelled from the spec: \<open>Children(peer)\<close>, the out-neighbours of a node.\<close>

definition Children :: "Task \<Rightarrow> string \<Rightarrow> string list" where
  "Children task peer = map snd (filter (\<lambda>e. fst e = peer) (edges (DAG task)))"

text \<open>Modelled from the spec: \<open>StorePeer(p)\<close> adds a node and does nothing when the
  node is present.\<close>

definition StorePeer :: "Task \<Rightarrow> string \<Rightarrow> Task" where
  "StorePeer task peer =
     (if peer \<in> set (vertices (DAG task)) then task
      else task\<lparr>DAG := (DAG task)\<lparr>vertices := vertices (DAG task) @ [peer]\<rparr>\<rparr>)"

text \<open>Modelled from the spec: the reachability check, a breadth-first traversal bounded
  by the node count. Each round adds the children of the nodes visited so far.\<close>

fun traverse :: "Task \<Rightarrow> nat \<Rightarrow> string list \<Rightarrow> string list" where
  "traverse task 0 visited = visited"
| "traverse task (Suc n) visited =
     traverse task n (List.union visited (concat (map (Children task) visited)))"

definition reachable :: "Task \<Rightarrow> string \<Rightarrow> string \<Rightarrow> bool" where
  "reachable task src dst = (dst \<in> set (traverse task (PeerCount task) [src]))"

text \<open>Modelled from the spec: \<open>AddPeerEdge(parent, child)\<close>. A self-edge is rejected
  unconditionally; when \<open>parent\<close> is reachable from \<open>child\<close> the edge would close a cycle
  and is rejected with \<open>CycleError\<close>; otherwise the edge joins the edge set.\<close>

definition AddPeerEdge :: "Task \<Rightarrow> string \<Rightarrow> string \<Rightarrow> graph_error + Task" where
  "AddPeerEdge task parent child =
     (if parent = child then Inl CycleError
      else if parent \<notin> set (vertices (DAG task)) \<or> child \<notin> set (vertices (DAG task))
        then Inl PeerNotFound
      else if reachable task child parent then Inl CycleError
      else Inr (task\<lparr>DAG := (DAG task)\<lparr>edges := List.insert (parent, child) (edges (DAG task))\<rparr>\<rparr>))"

text \<open>A sequence of calls on the graph of one task. A call of \<open>AddPeerEdge\<close> that fails
  leaves the task as it is.\<close>

datatype graph_operation = OpStorePeer string | OpAddPeerEdge string string

fun apply_graph_operation :: "Task \<Rightarrow> graph_operation \<Rightarrow> Task" where
  "apply_graph_operation task (OpStorePeer peer) = StorePeer task peer"
| "apply_graph_operation task (OpAddPeerEdge parent child) =
     (case AddPeerEdge task parent child of Inl err \<Rightarrow> task | Inr task' \<Rightarrow> task')"

definition apply_graph_operations :: "Task \<Rightarrow> graph_operation list \<Rightarrow> Task" where
  "apply_graph_operations task ops = foldl apply_graph_operation task ops"

text \<open>A topological ordering lists every node once, each parent before its children:
  the head of the list has no parent in the list, and so on for the tail.\<close>

fun topological :: "(string \<times> string) list \<Rightarrow> string list \<Rightarrow> bool" where
  "topological es [] = True"
| "topological es (v # vs) =
     ((\<forall>e \<in> set es. snd e = v \<longrightarrow> fst e \<notin> set (v # vs)) \<and> topological es vs)"

definition topological_order :: "Task \<Rightarrow> string list \<Rightarrow> bool" where
  "topological_order task ts =
     (distinct ts \<and> set ts = set (vertices (DAG task)) \<and> topological (edges (DAG task)) ts)"

text \<open>The invariant of the graph: the nodes are listed once, the edges join registered
  nodes, and no path leads from a node back to it.\<close>

definition wf_dag :: "Task \<Rightarrow> bool" where
  "wf_dag task =
     (distinct (vertices (DAG task))
      \<and> set (edges (DAG task)) \<subseteq> set (vertices (DAG task)) \<times> set (vertices (DAG task))
      \<and> acyclic (set (edges (DAG task))))"

definition example_graph :: Task where
  "example_graph =
     (NewTask ''task-0'' ''example.com'')
        \<lparr>DAG := \<lparr>vertices = [''a'', ''b'', ''c''], edges = [(''b'', ''c''), (''a'', ''b'')]\<rparr>\<rparr>"

section \<open>The task registry\<close>

text \<open>
  \<^verbatim>\<open>taskManager\<close> embeds a \<^verbatim>\<open>*sync.Map\<close>, whose values have the type \<^verbatim>\<open>any\<close>. A value is
  a \<^verbatim>\<open>*Task\<close>, which may be the nil pointer, or a value of another type. The map is an
  association list with one entry per key; its order is the order in which \<^verbatim>\<open>Range\<close>
  visits the keys. A task object is identified with its entry: the registry operations
  store a pointer under the \<^verbatim>\<open>ID\<close> of the task only, so that no two entries alias.
\<close>

datatype any = TaskPtr "Task option" | OtherValue

type_synonym sync_Map = "(string \<times> any) list"

type_synonym taskManager = sync_Map

datatype panic = NilDereference string | InterfaceConversion

definition Map_Load :: "sync_Map \<Rightarrow> string \<Rightarrow> any option" where
  "Map_Load m key = map_of m key"

definition Map_Store :: "sync_Map \<Rightarrow> string \<Rightarrow> any \<Rightarrow> sync_Map" where
  "Map_Store m key v = AList.update key v m"

definition Map_LoadOrStore :: "sync_Map \<Rightarrow> string \<Rightarrow> any \<Rightarrow> sync_Map \<times> any \<times> bool" where
  "Map_LoadOrStore m key v =
     (case map_of m key of
        Some actual \<Rightarrow> (m, actual, True)
      | None \<Rightarrow> (AList.update key v m, v, False))"

definition Map_Delete :: "sync_Map \<Rightarrow> string \<Rightarrow> sync_Map" where
  "Map_Delete m key = AList.delete key m"

text \<open>\<^verbatim>\<open>rawTask.(*Task)\<close>: a type assertion without the \<^verbatim>\<open>ok\<close> result panics on a value
  of another type.\<close>

definition assert_Task :: "any \<Rightarrow> panic + Task option" where
  "assert_Task rawTask =
     (case rawTask of TaskPtr p \<Rightarrow> Inr p | OtherValue \<Rightarrow> Inl InterfaceConversion)"

definition Load :: "taskManager \<Rightarrow> string \<Rightarrow> panic + (Task option \<times> bool)" where
  "Load t key =
     (case Map_Load t key of
        None \<Rightarrow> Inr (None, False)
      | Some rawTask \<Rightarrow>
          (case assert_Task rawTask of Inl p \<Rightarrow> Inl p | Inr task \<Rightarrow> Inr (task, True)))"

text \<open>\<^verbatim>\<open>task.ID\<close> on a nil \<^verbatim>\<open>*Task\<close> panics before the map is touched.\<close>

definition Store :: "taskManager \<Rightarrow> Task option \<Rightarrow> panic + taskManager" where
  "Store t task =
     (case task of
        None \<Rightarrow> Inl (NilDereference ''task.ID'')
      | Some tk \<Rightarrow> Inr (Map_Store t (ID tk) (TaskPtr task)))"

definition LoadOrStore ::
  "taskManager \<Rightarrow> Task option \<Rightarrow> panic + (taskManager \<times> Task option \<times> bool)" where
  "LoadOrStore t task =
     (case task of
        None \<Rightarrow> Inl (NilDereference ''task.ID'')
      | Some tk \<Rightarrow>
          (case Map_LoadOrStore t (ID tk) (TaskPtr task) of
             (t', rawTask, loaded) \<Rightarrow>
               (case assert_Task rawTask of
                  Inl p \<Rightarrow> Inl p
                | Inr task' \<Rightarrow> Inr (t', task', loaded))))"

definition Delete :: "taskManager \<Rightarrow> string \<Rightarrow> taskManager" where
  "Delete t key = Map_Delete t key"

text \<open>The registries that the typed operations build: one entry per key, and every
  value a non-nil task stored under its own \<^verbatim>\<open>ID\<close>.\<close>

definition stored_task :: "string \<times> any \<Rightarrow> bool" where
  "stored_task e = (case snd e of TaskPtr (Some tk) \<Rightarrow> ID tk = fst e | _ \<Rightarrow> False)"

definition wf_registry :: "taskManager \<Rightarrow> bool" where
  "wf_registry t = (distinct (map fst t) \<and> list_all stored_task t)"

section \<open>The garbage collection sweep\<close>

text \<open>The entries the sweep writes through \<^verbatim>\<open>task.Log\<close>: the \<open>ID\<close> of the task whose
  logger it is, the message, and for \<^verbatim>\<open>Errorf\<close> the error that is formatted into it.\<close>

datatype log_entry =
  LogInfo string string
  | LogErrorf string string fsm_error

text \<open>The body of the callback that \<^verbatim>\<open>RunGC\<close> passes to \<^verbatim>\<open>Range\<close>, called with the value
  found under \<open>key\<close>. It always returns \<^verbatim>\<open>true\<close> (go on), so only its effects on the map
  and the log are returned. When the assertion \<^verbatim>\<open>value.(*Task)\<close> fails, \<^verbatim>\<open>task\<close> is nil
  and \<^verbatim>\<open>task.Log\<close> panics; a nil \<^verbatim>\<open>*Task\<close> passes the assertion and \<^verbatim>\<open>task.FSM\<close>
  panics. \<^verbatim>\<open>FSM.Event\<close> mutates the task in place: the entry under \<open>key\<close> is
  replaced by the task in its new state.\<close>

definition gc_callback ::
  "taskManager \<times> log_entry list \<Rightarrow> string \<Rightarrow> any \<Rightarrow> panic + (taskManager \<times> log_entry list)" where
  "gc_callback s key v =
     (case s of (t, lg) \<Rightarrow>
        (case v of
           OtherValue \<Rightarrow> Inl (NilDereference ''task.Log'')
         | TaskPtr None \<Rightarrow> Inl (NilDereference ''task.FSM'')
         | TaskPtr (Some task) \<Rightarrow>
             if Is (FSM task) TaskStateLeave then
               Inr (Delete t (ID task), lg @ [LogInfo (ID task) ''task has been reclaimed''])
             else if PeerCount task = 0 then
               (case Event (FSM task) TaskEventLeave of
                  Inl err \<Rightarrow>
                    Inr (t, lg @ [LogErrorf (ID task) ''task fsm event failed: %s'' err])
                | Inr f \<Rightarrow>
                    Inr (Map_Store t key (TaskPtr (Some (task\<lparr>FSM := f\<rparr>))),
                         lg @ [LogInfo (ID task)
                                 ''task peer count is zero, causing the task to leave'']))
             else Inr (t, lg)))"

text \<open>\<^verbatim>\<open>sync.Map.Range\<close> walks the keys that the map held when the call began, loads the
  value of each key when it reaches it and skips a key deleted in the meantime.\<close>

fun Map_Range :: "string list \<Rightarrow> taskManager \<times> log_entry list \<Rightarrow>
    panic + (taskManager \<times> log_entry list)" where
  "Map_Range [] s = Inr s"
| "Map_Range (key # keys) s =
     (case Map_Load (fst s) key of
        None \<Rightarrow> Map_Range keys s
      | Some v \<Rightarrow>
          (case gc_callback s key v of
             Inl p \<Rightarrow> Inl p
           | Inr s' \<Rightarrow> Map_Range keys s'))"

text \<open>\<^verbatim>\<open>RunGC\<close> returns the map and the log after the sweep, and its error result, which
  is \<^verbatim>\<open>nil\<close> (\<open>None\<close>).\<close>

definition RunGC :: "taskManager \<Rightarrow> panic + (taskManager \<times> log_entry list \<times> fsm_error option)" where
  "RunGC t =
     (case Map_Range (map fst t) (t, []) of
        Inl p \<Rightarrow> Inl p
      | Inr (t', lg) \<Rightarrow> Inr (t', lg, None))"

text \<open>The sweep in the words of the specification (section 4.6), entry by entry: a task
  in \<open>Leave\<close> is deleted (\<open>None\<close>); on a task with no peer the \<open>Leave\<close> event is fired,
  and the task stays, in its new state when the event succeeds and unchanged when it fails;
  any other task stays as it is. \<open>RunGC_wf\<close> below shows that \<open>RunGC\<close> does this to every
  entry of a well-formed registry.\<close>

definition swept :: "Task \<Rightarrow> Task option" where
  "swept task =
     (if Is (FSM task) TaskStateLeave then None
      else if PeerCount task = 0 then
        (case Event (FSM task) TaskEventLeave of
           Inl err \<Rightarrow> Some task
         | Inr f \<Rightarrow> Some (task\<lparr>FSM := f\<rparr>))
      else Some task)"

definition swept_entry :: "any option \<Rightarrow> any option" where
  "swept_entry e =
     (case e of
        Some (TaskPtr (Some task)) \<Rightarrow> map_option (\<lambda>task'. TaskPtr (Some task')) (swept task)
      | _ \<Rightarrow> e)"

subsection \<open>Sequences of operations\<close>

text \<open>The operations of the \<^verbatim>\<open>TaskManager\<close> interface, and one step of the
  surrounding scheduler: a stored task is a shared object, and scheduling changes its
  state machine and its graph (never its \<^verbatim>\<open>ID\<close>) between calls.\<close>

datatype operation =
  OpLoad string
  | OpStore "Task option"
  | OpLoadOrStore "Task option"
  | OpDelete string
  | OpRunGC
  | OpMutate string "Task \<Rightarrow> Task"

definition mutate :: "taskManager \<Rightarrow> string \<Rightarrow> (Task \<Rightarrow> Task) \<Rightarrow> taskManager" where
  "mutate t key f =
     (case map_of t key of
        Some (TaskPtr (Some task)) \<Rightarrow>
          AList.update key (TaskPtr (Some ((f task)\<lparr>ID := ID task\<rparr>))) t
      | _ \<Rightarrow> t)"

fun apply_operation :: "operation \<Rightarrow> taskManager \<Rightarrow> panic + taskManager" where
  "apply_operation (OpLoad key) t =
     (case Load t key of Inl p \<Rightarrow> Inl p | Inr r \<Rightarrow> Inr t)"
| "apply_operation (OpStore task) t = Store t task"
| "apply_operation (OpLoadOrStore task) t =
     (case LoadOrStore t task of Inl p \<Rightarrow> Inl p | Inr r \<Rightarrow> Inr (fst r))"
| "apply_operation (OpDelete key) t = Inr (Delete t key)"
| "apply_operation OpRunGC t =
     (case RunGC t of Inl p \<Rightarrow> Inl p | Inr r \<Rightarrow> Inr (fst r))"
| "apply_operation (OpMutate key f) t = Inr (mutate t key f)"

fun run :: "operation list \<Rightarrow> taskManager \<Rightarrow> panic + taskManager" where
  "run [] t = Inr t"
| "run (op # ops) t =
     (case apply_operation op t of Inl p \<Rightarrow> Inl p | Inr t' \<Rightarrow> run ops t')"

subsection \<open>Tasks that the constructor did not build\<close>

text \<open>
  The record \<open>Task\<close> is a task as its constructor builds it, with its state machine. The
  registry takes every \<^verbatim>\<open>*Task\<close>, also a pointer to a struct literal such as
  \<^verbatim>\<open>&Task{ID: "x"}\<close>; the members that a literal does not name are zero, and the state
  machine of such a task is the nil pointer. \<open>TaskStruct\<close> is the struct behind a
  \<^verbatim>\<open>*Task\<close> with the state machine nullable, and the definitions of this subsection are
  \<^verbatim>\<open>task_manager.go\<close> once more, over these structs. The state machine is the first
  member that \<^verbatim>\<open>RunGC\<close> dereferences on a task that has passed the type assertion
  (\<^verbatim>\<open>task.FSM.Is\<close>), ahead of the graph and the logger. On the structs of built tasks the
  two models of the sweep agree (\<open>RunGC_struct_of_registry\<close> below).
\<close>

text \<open>Modelled from the spec: the members of a task as in \<open>Task\<close> (the declaration is in
  \<^verbatim>\<open>task.go\<close>, which is not among the sources), the state machine held through a pointer
  that may be nil.\<close>

record TaskStruct =
  struct_ID :: string
  struct_URL :: string
  struct_FSM :: "fsm option"
  struct_DAG :: dag

datatype struct_value = StructPtr "TaskStruct option" | OtherStruct

type_synonym struct_Map = "(string \<times> struct_value) list"





definition Delete_struct :: "struct_Map \<Rightarrow> string \<Rightarrow> struct_Map" where
  "Delete_struct t key = AList.delete key t"

text \<open>The callback of the sweep. The call \<^verbatim>\<open>task.FSM.Is\<close> on a task whose state machine
  is nil panics.\<close>

definition gc_callback_struct ::
  "struct_Map \<times> log_entry list \<Rightarrow> string \<Rightarrow> struct_value
     \<Rightarrow> panic + (struct_Map \<times> log_entry list)" where
  "gc_callback_struct s key v =
     (case s of (t, lg) \<Rightarrow>
        (case v of
           OtherStruct \<Rightarrow> Inl (NilDereference ''task.Log'')
         | StructPtr None \<Rightarrow> Inl (NilDereference ''task.FSM'')
         | StructPtr (Some task) \<Rightarrow>
             (case struct_FSM task of
                None \<Rightarrow> Inl (NilDereference ''task.FSM.Is'')
              | Some f \<Rightarrow>
                  if Is f TaskStateLeave then
                    Inr (Delete_struct t (struct_ID task),
                         lg @ [LogInfo (struct_ID task) ''task has been reclaimed''])
                  else if length (vertices (struct_DAG task)) = 0 then
                    (case Event f TaskEventLeave of
                       Inl err \<Rightarrow>
                         Inr (t, lg @ [LogErrorf (struct_ID task) ''task fsm event failed: %s'' err])
                     | Inr f' \<Rightarrow>
                         Inr (AList.update key (StructPtr (Some (task\<lparr>struct_FSM := Some f'\<rparr>))) t,
                              lg @ [LogInfo (struct_ID task)
                                      ''task peer count is zero, causing the task to leave'']))
                  else Inr (t, lg))))"

fun Map_Range_struct :: "string list \<Rightarrow> struct_Map \<times> log_entry list \<Rightarrow>
    panic + (struct_Map \<times> log_entry list)" where
  "Map_Range_struct [] s = Inr s"
| "Map_Range_struct (key # keys) s =
     (case map_of (fst s) key of
        None \<Rightarrow> Map_Range_struct keys s
      | Some v \<Rightarrow>
          (case gc_callback_struct s key v of
             Inl p \<Rightarrow> Inl p
           | Inr s' \<Rightarrow> Map_Range_struct keys s'))"

definition RunGC_struct ::
  "struct_Map \<Rightarrow> panic + (struct_Map \<times> log_entry list \<times> fsm_error option)" where
  "RunGC_struct t =
     (case Map_Range_struct (map fst t) (t, []) of
        Inl p \<Rightarrow> Inl p
      | Inr (t', lg) \<Rightarrow> Inr (t', lg, None))"





text \<open>The struct of a built task, and the registry of structs of a registry of built
  tasks.\<close>

definition of_Task :: "Task \<Rightarrow> TaskStruct" where
  "of_Task task =
     \<lparr>struct_ID = ID task, struct_URL = URL task, struct_FSM = Some (FSM task),
      struct_DAG = DAG task\<rparr>"

definition of_any :: "any \<Rightarrow> struct_value" where
  "of_any v = (case v of TaskPtr p \<Rightarrow> StructPtr (map_option of_Task p) | OtherValue \<Rightarrow> OtherStruct)"

definition of_registry :: "taskManager \<Rightarrow> struct_Map" where
  "of_registry t = map (\<lambda>(k, v). (k, of_any v)) t"




subsection \<open>Concurrent calls of LoadOrStore\<close>

text \<open>
  Concurrent callers of \<^verbatim>\<open>LoadOrStore\<close>. A call is two steps. The first is the body of
  \<open>LoadOrStore\<close> above: its one access to the shared map is the call of
  \<^verbatim>\<open>sync.Map.LoadOrStore\<close>, an atomic action (the guarantee of the Go library that the
  method relies on), and the rest of it, the type assertion, is local to the caller. The
  second hands the results to the caller. A thread is the point a call has reached; a
  schedule is the list of the thread indices in the order in which the threads take their
  steps, and an interleaving of the calls is the run of a schedule.
\<close>

datatype thread =
  Calling "Task option"
  | Returning "Task option" bool
  | Returned "Task option" bool
  | Panicked panic

type_synonym config = "taskManager \<times> thread list"

definition thread_step :: "taskManager \<Rightarrow> thread \<Rightarrow> taskManager \<times> thread" where
  "thread_step t th =
     (case th of
        Calling task \<Rightarrow>
          (case LoadOrStore t task of
             Inl p \<Rightarrow> (t, Panicked p)
           | Inr (t', task', loaded) \<Rightarrow> (t', Returning task' loaded))
      | Returning task' loaded \<Rightarrow> (t, Returned task' loaded)
      | _ \<Rightarrow> (t, th))"

definition schedule :: "nat \<Rightarrow> config \<Rightarrow> config" where
  "schedule i c =
     (case c of (t, ths) \<Rightarrow>
        if i < length ths then
          (case thread_step t (ths ! i) of (t', th') \<Rightarrow> (t', ths[i := th']))
        else c)"

fun interleave :: "nat list \<Rightarrow> config \<Rightarrow> config" where
  "interleave [] c = c"
| "interleave (i # sched) c = interleave sched (schedule i c)"

text \<open>The number of steps a thread has yet to take.\<close>

fun steps_left :: "thread \<Rightarrow> nat" where
  "steps_left (Calling task) = 2"
| "steps_left (Returning task loaded) = 1"
| "steps_left th = 0"

text \<open>The invariant of a race of first registration for \<open>key\<close>: either nothing is stored
  under \<open>key\<close> and no caller has run \<open>LoadOrStore\<close>, or the task of one caller \<open>w\<close> is
  stored, \<open>w\<close> holds it with \<open>loaded = false\<close> and every other caller is yet to run
  \<open>LoadOrStore\<close> or holds the task of \<open>w\<close> with \<open>loaded = true\<close>.\<close>

definition race_inv :: "string \<Rightarrow> Task list \<Rightarrow> config \<Rightarrow> bool" where
  "race_inv key tasks c =
     (case c of (t, ths) \<Rightarrow>
        length ths = length tasks \<and> distinct (map fst t) \<and>
        (case map_of t key of
           None \<Rightarrow> \<forall>i < length tasks. ths ! i = Calling (Some (tasks ! i))
         | Some v \<Rightarrow>
             \<exists>w < length tasks. v = TaskPtr (Some (tasks ! w)) \<and>
               (ths ! w = Returning (Some (tasks ! w)) False \<or> ths ! w = Returned (Some (tasks ! w)) False) \<and>
               (\<forall>i < length tasks. i \<noteq> w \<longrightarrow>
                  ths ! i = Calling (Some (tasks ! i)) \<or> ths ! i = Returning (Some (tasks ! w)) True
                  \<or> ths ! i = Returned (Some (tasks ! w)) True)))"

subsection \<open>Concrete registries\<close>

text \<open>A task with a given state machine and peers, and two small registries on which
  the results are instantiated. The first task of \<open>stuck_registry\<close> has a machine with
  no transition at all, so that the \<open>Leave\<close> event fails on it.\<close>

definition example_task :: "string \<Rightarrow> fsm \<Rightarrow> string list \<Rightarrow> Task" where
  "example_task taskID f peers =
     \<lparr>ID = taskID, URL = ''example.com'', FSM = f, DAG = \<lparr>vertices = peers, edges = []\<rparr>\<rparr>"

definition example_registry :: taskManager where
  "example_registry =
     [(''task-0'', TaskPtr (Some (example_task ''task-0''
          \<lparr>current = TaskStateLeave, transitions = task_transitions\<rparr> []))),
      (''task-1'', TaskPtr (Some (example_task ''task-1''
          \<lparr>current = TaskStateSucceeded, transitions = task_transitions\<rparr> []))),
      (''task-2'', TaskPtr (Some (example_task ''task-2''
          \<lparr>current = TaskStateRunning, transitions = task_transitions\<rparr> [''peer-0''])))]"

definition stuck_registry :: taskManager where
  "stuck_registry =
     (''task-3'', TaskPtr (Some (example_task ''task-3''
          \<lparr>current = TaskStateRunning, transitions = (\<lambda>x. None)\<rparr> [])))
     # example_registry"

text \<open>New peers registered in the graph of a stored task between two sweeps.\<close>

definition repopulate :: "string list \<Rightarrow> (string \<times> string) list \<Rightarrow> Task \<Rightarrow> Task" where
  "repopulate peers es task = task\<lparr>DAG := \<lparr>vertices = peers, edges = es\<rparr>\<rparr>"

section \<open>Peer priority resolution\<close>

text \<open>
  \<^verbatim>\<open>Peer.GetPriority\<close> is in \<^verbatim>\<open>peer.go\<close>, which is not among the sources; its test
  \<^verbatim>\<open>TestPeer_GetPriority\<close> is. The function is modelled from sections 4.4 and 6 of the
  specification, the data from the values the test builds.
\<close>

text \<open>Modelled from the spec: the priority levels; the lowest is \<open>Priority_LEVEL0\<close>, the
  level the test expects wherever the resolution falls back.\<close>

datatype Priority =
  Priority_LEVEL0 | Priority_LEVEL1 | Priority_LEVEL2 | Priority_LEVEL3
  | Priority_LEVEL4 | Priority_LEVEL5 | Priority_LEVEL6

text \<open>Modelled from the spec: an application has a name, a default priority and an
  ordered list of overrides, each a URL regex with a priority (section 6). In the test the
  priority of an application is a pointer that may be nil.\<close>

record URLPriority =
  Regex :: string
  url_Value :: Priority

record ApplicationPriority =
  Value :: Priority
  Urls :: "URLPriority list"

record Application =
  Name :: string
  Priority :: "ApplicationPriority option"

text \<open>Modelled from the spec: the members of a peer that the resolution reads, its
  application label and its task.\<close>

record Peer =
  Application :: string
  Task :: Task

text \<open>Modelled from the spec: the result of \<open>GetApplications()\<close>, the application list
  or an error.\<close>

datatype lookup_error = LookupError string

text \<open>Modelled from the spec: \<open>GetPriority\<close>. A failed lookup, no application with
  the label of the peer, or an application without a priority give the lowest level; else
  the first override whose regex matches the URL of the task gives its value; else the
  default priority of the application is the result. The regex engine is the parameter
  \<open>matches\<close> (regex, then URL).\<close>

definition GetPriority ::
  "(string \<Rightarrow> string \<Rightarrow> bool) \<Rightarrow> Peer \<Rightarrow> lookup_error + Application list \<Rightarrow> Priority" where
  "GetPriority matches peer applications =
     (case applications of
        Inl err \<Rightarrow> Priority_LEVEL0
      | Inr apps \<Rightarrow>
          (case find (\<lambda>a. Name a = Application peer) apps of
             None \<Rightarrow> Priority_LEVEL0
           | Some application \<Rightarrow>
               (case Priority application of
                  None \<Rightarrow> Priority_LEVEL0
                | Some priority \<Rightarrow>
                    (case find (\<lambda>u. matches (Regex u) (URL (Task peer))) (Urls priority) of
                       Some u \<Rightarrow> url_Value u
                     | None \<Rightarrow> Value priority))))"

text \<open>The matcher of the concrete instances: a regex without metacharacters, such as the
  \<^verbatim>\<open>am\<close> of the test, matches the strings that contain it.\<close>

fun contains :: "string \<Rightarrow> string \<Rightarrow> bool" where
  "contains pat [] = (pat = [])"
| "contains pat (c # cs) = (prefix pat (c # cs) \<or> contains pat cs)"

definition test_peer :: "string \<Rightarrow> string \<Rightarrow> Peer" where
  "test_peer application url = \<lparr>Application = application, Task = NewTask ''task-0'' url\<rparr>"

definition test_application :: Application where
  "test_application =
     \<lparr>Name = ''bak'',
      Priority = Some \<lparr>Value = Priority_LEVEL1,
                       Urls = [\<lparr>Regex = ''am'', url_Value = Priority_LEVEL2\<rparr>]\<rparr>\<rparr>"

section \<open>The piece downloader\<close>

text \<open>
  \<^verbatim>\<open>DownloadPiece\<close> and the digest reader are not among the sources; the test
  \<^verbatim>\<open>TestPieceDownloader_DownloadPiece\<close> is. The downloader is modelled from sections 4.7
  and 6 of the specification; the request fields and their integer types are those of the
  test. The release handle and the optional query parameter of the wire contract play no
  part in the results below and are left out. The MD5 function is the parameter
  \<open>md5sum\<close>, the destination the parameter \<open>server\<close>.
\<close>

record PieceInfo =
  PieceNum :: "32 word"
  RangeStart :: "64 word"
  RangeSize :: "32 word"
  PieceMd5 :: string
  PieceOffset :: "64 word"

record DownloadPieceRequest =
  TaskID :: string
  DstPid :: string
  DstAddr :: string
  CalcDigest :: bool
  piece :: PieceInfo

record http_request =
  verb :: string
  host :: string
  path :: string
  headers :: "(string \<times> string) list"

record http_response =
  status :: nat
  body :: string

datatype download_error =
  TransportErrorStatus nat
  | TransportErrorCause string
  | DigestMismatchError

text \<open>Decimal and lower-case hexadecimal printing.\<close>

definition digit :: "nat \<Rightarrow> char" where
  "digit n = ''0123456789abcdef'' ! n"

function decimal :: "nat \<Rightarrow> string" where
  "decimal n = (if n < 10 then [digit n] else decimal (n div 10) @ [digit (n mod 10)])"
  by pat_completeness auto
termination
  by (relation "measure id") auto

definition hex_encode :: "string \<Rightarrow> string" where
  "hex_encode bs = concat (map (\<lambda>b. [digit (of_char b div 16), digit (of_char b mod 16)]) bs)"

text \<open>Modelled from the spec: the digest of a body, the first 16 bytes of its hash in
  lower-case hexadecimal.\<close>

definition piece_digest :: "(string \<Rightarrow> string) \<Rightarrow> string \<Rightarrow> string" where
  "piece_digest md5sum bs = hex_encode (take 16 (md5sum bs))"

text \<open>Modelled from the spec: the request of a piece, a \<^verbatim>\<open>GET\<close> of
  \<^verbatim>\<open>/download/<taskID[0:3]>/<taskID>\<close> with the header
  \<^verbatim>\<open>Range: bytes=<start>-<start+size-1>\<close>, in unsigned 64-bit arithmetic.\<close>

definition build_request :: "DownloadPieceRequest \<Rightarrow> http_request" where
  "build_request req =
     \<lparr>verb = ''GET'',
      host = DstAddr req,
      path = ''/download/'' @ take 3 (TaskID req) @ ''/'' @ TaskID req,
      headers =
        [(''Range'',
          ''bytes='' @ decimal (unat (RangeStart (piece req))) @ ''-''
            @ decimal (unat (RangeStart (piece req) + ucast (RangeSize (piece req)) - 1)))]\<rparr>"

text \<open>Modelled from the spec: the digest-accumulating reader. It forwards the bytes of
  the body and keeps those it has hashed; a read at the end of the body compares the digest
  of the hashed bytes with the expected one, if there is one, and returns the end of the
  stream or the mismatch error.\<close>

record reader =
  unread :: string
  hashed :: string
  verify :: "string option"

datatype read_result = Data string | EOF | ReadError download_error

definition Read :: "(string \<Rightarrow> string) \<Rightarrow> nat \<Rightarrow> reader \<Rightarrow> read_result \<times> reader" where
  "Read md5sum n r =
     (if unread r = [] then
        (case verify r of
           None \<Rightarrow> (EOF, r)
         | Some expected \<Rightarrow>
             if piece_digest md5sum (hashed r) = expected then (EOF, r)
             else (ReadError DigestMismatchError, r))
      else
        (Data (take n (unread r)),
         r\<lparr>unread := drop n (unread r), hashed := hashed r @ take n (unread r)\<rparr>))"

text \<open>Draining a stream: reads with a buffer of \<open>n + 1\<close> bytes until the end of the
  stream or an error, returning the bytes read and the error, if any.\<close>

function ReadAll :: "(string \<Rightarrow> string) \<Rightarrow> nat \<Rightarrow> reader \<Rightarrow> string \<times> download_error option" where
  "ReadAll md5sum n r =
     (case Read md5sum (Suc n) r of
        (Data bs, r') \<Rightarrow> (case ReadAll md5sum n r' of (rest, err) \<Rightarrow> (bs @ rest, err))
      | (EOF, r') \<Rightarrow> ([], None)
      | (ReadError e, r') \<Rightarrow> ([], Some e))"
  by pat_completeness auto
termination
  by (relation "measure (\<lambda>(md5sum, n, r). length (unread r))")
     (auto simp: Read_def split: if_splits option.splits)

text \<open>The results of successive reads with the given buffer sizes.\<close>

fun Reads :: "(string \<Rightarrow> string) \<Rightarrow> nat list \<Rightarrow> reader \<Rightarrow> read_result list" where
  "Reads md5sum [] r = []"
| "Reads md5sum (n # ns) r = (case Read md5sum n r of (res, r') \<Rightarrow> res # Reads md5sum ns r')"

text \<open>Modelled from the spec: \<open>DownloadPiece\<close> sends the request, requires the status
  200 or 206 and wraps the body in the verifying reader when a digest is requested.\<close>

definition DownloadPiece ::
  "(string \<Rightarrow> string) \<Rightarrow> (http_request \<Rightarrow> string + http_response) \<Rightarrow> DownloadPieceRequest
     \<Rightarrow> download_error + reader" where
  "DownloadPiece md5sum server req =
     (case server (build_request req) of
        Inl cause \<Rightarrow> Inl (TransportErrorCause cause)
      | Inr resp \<Rightarrow>
          if status resp = 200 \<or> status resp = 206 then
            Inr \<lparr>unread = body resp, hashed = [],
                 verify = (if CalcDigest req then Some (PieceMd5 (piece req)) else None)\<rparr>
          else Inl (TransportErrorStatus (status resp)))"

text \<open>The first case of the test: the handler checks the path and serves the ten bytes of
  \<^verbatim>\<open>test test \<close>; \<open>test_md5sum\<close> is MD5 on that body.\<close>

definition test_md5sum :: "string \<Rightarrow> string" where
  "test_md5sum bs =
     (if bs = ''test test '' then
        map char_of [143, 144, 43, 207, 6, 37, 205, 26, 247, 55, 137, 191, 32, 124, 56, 128 :: nat]
      else replicate 16 (char_of (0 :: nat)))"

definition test_server :: "http_request \<Rightarrow> string + http_response" where
  "test_server rq =
     (if path rq = ''/download/tas/task-0'' then Inr \<lparr>status = 200, body = ''test test ''\<rparr>
      else Inl ''unexpected path'')"

definition test_request :: "string \<Rightarrow> DownloadPieceRequest" where
  "test_request digest =
     \<lparr>TaskID = ''task-0'', DstPid = '''', DstAddr = ''127.0.0.1:65001'', CalcDigest = True,
      piece = \<lparr>PieceNum = 0, RangeStart = 0, RangeSize = 10, PieceMd5 = digest,
               PieceOffset = 0\<rparr>\<rparr>"

section \<open>Registry operations\<close>

lemma Load_stored_iff:
  "Load t key = Inr (Some task, True) \<longleftrightarrow> map_of t key = Some (TaskPtr (Some task))"
  by (auto simp: Load_def Map_Load_def assert_Task_def split: option.splits any.splits)

lemma Load_absent_iff:
  "Load t key = Inr (None, False) \<longleftrightarrow> map_of t key = None"
  by (auto simp: Load_def Map_Load_def assert_Task_def split: option.splits any.splits)

lemma wf_registry_lookup:
  assumes "wf_registry t" and "map_of t key = Some v"
  shows "\<exists>task. v = TaskPtr (Some task) \<and> ID task = key"
proof -
  from assms(2) have "(key, v) \<in> set t" by (rule map_of_SomeD)
  with assms(1) have "stored_task (key, v)"
    by (auto simp: wf_registry_def list_all_iff)
  then show ?thesis
    by (auto simp: stored_task_def split: any.splits option.splits)
qed

section \<open>The sweep on a well-formed registry\<close>

lemma wf_registry_Nil: "wf_registry []"
  by (simp add: wf_registry_def)

lemma wf_registry_update:
  assumes "wf_registry t" and "ID task = key"
  shows "wf_registry (AList.update key (TaskPtr (Some task)) t)"
proof -
  have "set (AList.update key (TaskPtr (Some task)) t) \<subseteq> insert (key, TaskPtr (Some task)) (set t)"
    by (induction t) auto
  with assms show ?thesis
    by (auto simp: wf_registry_def list_all_iff distinct_update stored_task_def)
qed

lemma wf_registry_delete:
  assumes "wf_registry t"
  shows "wf_registry (AList.delete key t)"
proof -
  have "set (AList.delete key t) \<subseteq> set t"
    by (auto simp: AList.delete_eq)
  with assms show ?thesis
    by (auto simp: wf_registry_def list_all_iff distinct_delete)
qed

lemma gc_callback_wf:
  assumes "wf_registry t" and "map_of t key = Some v"
  shows "\<exists>t' lg'. gc_callback (t, lg) key v = Inr (t', lg') \<and> wf_registry t'
           \<and> map_of t' = (map_of t)(key := swept_entry (Some v))
           \<and> set lg \<subseteq> set lg'
           \<and> (\<forall>task err. v = TaskPtr (Some task) \<and> \<not> Is (FSM task) TaskStateLeave
                 \<and> PeerCount task = 0 \<and> Event (FSM task) TaskEventLeave = Inl err
               \<longrightarrow> LogErrorf (ID task) ''task fsm event failed: %s'' err \<in> set lg')"
proof -
  from wf_registry_lookup [OF assms] obtain task where v: "v = TaskPtr (Some task)" and k: "ID task = key"
    by blast
  show ?thesis
  proof (cases "Is (FSM task) TaskStateLeave")
    case True
    then show ?thesis using assms(1) v k
      by (auto simp: gc_callback_def Delete_def Map_Delete_def wf_registry_delete delete_conv'
            swept_entry_def swept_def)
  next
    case False
    show ?thesis
    proof (cases "PeerCount task = 0")
      case nz: False
      with False assms v show ?thesis
        by (auto simp: gc_callback_def swept_entry_def swept_def)
    next
      case True
      show ?thesis
      proof (cases "Event (FSM task) TaskEventLeave")
        case (Inl err)
        with True False assms v show ?thesis
          by (auto simp: gc_callback_def swept_entry_def swept_def)
      next
        case (Inr f)
        have "ID (task\<lparr>FSM := f\<rparr>) = key" using k by simp
        from wf_registry_update [OF assms(1) this] Inr True False v show ?thesis
          by (auto simp: gc_callback_def swept_entry_def swept_def Map_Store_def update_conv')
      qed
    qed
  qed
qed

lemma Range_wf:
  assumes "wf_registry t" and "distinct keys"
  shows "\<exists>t' lg'. Map_Range keys (t, lg) = Inr (t', lg') \<and> wf_registry t'
           \<and> (\<forall>k. map_of t' k = (if k \<in> set keys then swept_entry (map_of t k) else map_of t k))
           \<and> set lg \<subseteq> set lg'
           \<and> (\<forall>k task err. k \<in> set keys \<and> map_of t k = Some (TaskPtr (Some task))
                 \<and> \<not> Is (FSM task) TaskStateLeave
                 \<and> PeerCount task = 0 \<and> Event (FSM task) TaskEventLeave = Inl err
               \<longrightarrow> LogErrorf (ID task) ''task fsm event failed: %s'' err \<in> set lg')"
  using assms
proof (induction keys arbitrary: t lg)
  case Nil
  then show ?case by simp
next
  case (Cons key keys)
  from Cons.prems(2) have dk: "distinct keys" and nk: "key \<notin> set keys" by simp_all
  show ?case
  proof (cases "map_of t key")
    case None
    from Cons.IH [OF Cons.prems(1) dk, of lg] obtain t' lg' where
      r: "Map_Range keys (t, lg) = Inr (t', lg')" and w: "wf_registry t'"
      and m: "\<forall>k. map_of t' k = (if k \<in> set keys then swept_entry (map_of t k) else map_of t k)"
      and l: "set lg \<subseteq> set lg'"
      and e: "\<forall>k task err. k \<in> set keys \<and> map_of t k = Some (TaskPtr (Some task))
                 \<and> \<not> Is (FSM task) TaskStateLeave
                 \<and> PeerCount task = 0 \<and> Event (FSM task) TaskEventLeave = Inl err
               \<longrightarrow> LogErrorf (ID task) ''task fsm event failed: %s'' err \<in> set lg'"
      by blast
    have s: "swept_entry (map_of t key) = map_of t key"
      using None by (simp add: swept_entry_def)
    have "Map_Range (key # keys) (t, lg) = Inr (t', lg')"
      using None r by (simp add: Map_Load_def)
    moreover have "\<forall>k. map_of t' k =
        (if k \<in> set (key # keys) then swept_entry (map_of t k) else map_of t k)"
      using m s None by auto
    moreover have "\<forall>k task err. k \<in> set (key # keys) \<and> map_of t k = Some (TaskPtr (Some task))
                 \<and> \<not> Is (FSM task) TaskStateLeave
                 \<and> PeerCount task = 0 \<and> Event (FSM task) TaskEventLeave = Inl err
               \<longrightarrow> LogErrorf (ID task) ''task fsm event failed: %s'' err \<in> set lg'"
      using e None by auto
    ultimately show ?thesis using w l by blast
  next
    case (Some v)
    from gc_callback_wf [OF Cons.prems(1) Some, of lg] obtain t1 lg1 where
      c: "gc_callback (t, lg) key v = Inr (t1, lg1)" and w1: "wf_registry t1"
      and m1: "map_of t1 = (map_of t)(key := swept_entry (Some v))"
      and l1: "set lg \<subseteq> set lg1"
      and e1: "\<forall>task err. v = TaskPtr (Some task) \<and> \<not> Is (FSM task) TaskStateLeave
                 \<and> PeerCount task = 0 \<and> Event (FSM task) TaskEventLeave = Inl err
               \<longrightarrow> LogErrorf (ID task) ''task fsm event failed: %s'' err \<in> set lg1"
      by blast
    from Cons.IH [OF w1 dk, of lg1] obtain t' lg' where
      r: "Map_Range keys (t1, lg1) = Inr (t', lg')" and w: "wf_registry t'"
      and m: "\<forall>k. map_of t' k = (if k \<in> set keys then swept_entry (map_of t1 k) else map_of t1 k)"
      and l: "set lg1 \<subseteq> set lg'"
      and e: "\<forall>k task err. k \<in> set keys \<and> map_of t1 k = Some (TaskPtr (Some task))
                 \<and> \<not> Is (FSM task) TaskStateLeave
                 \<and> PeerCount task = 0 \<and> Event (FSM task) TaskEventLeave = Inl err
               \<longrightarrow> LogErrorf (ID task) ''task fsm event failed: %s'' err \<in> set lg'"
      by blast
    have "Map_Range (key # keys) (t, lg) = Inr (t', lg')"
      using Some c r by (simp add: Map_Load_def)
    moreover have "\<forall>k. map_of t' k =
        (if k \<in> set (key # keys) then swept_entry (map_of t k) else map_of t k)"
      using m m1 nk Some by auto
    moreover have "set lg \<subseteq> set lg'" using l1 l by blast
    moreover have "\<forall>k task err. k \<in> set (key # keys) \<and> map_of t k = Some (TaskPtr (Some task))
                 \<and> \<not> Is (FSM task) TaskStateLeave
                 \<and> PeerCount task = 0 \<and> Event (FSM task) TaskEventLeave = Inl err
               \<longrightarrow> LogErrorf (ID task) ''task fsm event failed: %s'' err \<in> set lg'"
    proof (intro allI impI)
      fix k task err
      assume a: "k \<in> set (key # keys) \<and> map_of t k = Some (TaskPtr (Some task))
                 \<and> \<not> Is (FSM task) TaskStateLeave
                 \<and> PeerCount task = 0 \<and> Event (FSM task) TaskEventLeave = Inl err"
      show "LogErrorf (ID task) ''task fsm event failed: %s'' err \<in> set lg'"
      proof (cases "k = key")
        case True
        with a Some have "v = TaskPtr (Some task)" by simp
        with a e1 have "LogErrorf (ID task) ''task fsm event failed: %s'' err \<in> set lg1" by blast
        with l show ?thesis by blast
      next
        case False
        with a have "k \<in> set keys" by simp
        moreover from False m1 a have "map_of t1 k = Some (TaskPtr (Some task))" by simp
        ultimately show ?thesis using e a by blast
      qed
    qed
    ultimately show ?thesis using w by blast
  qed
qed

lemma RunGC_wf:
  assumes "wf_registry t"
  shows "\<exists>t' lg. RunGC t = Inr (t', lg, None) \<and> wf_registry t'
           \<and> (\<forall>k. map_of t' k = swept_entry (map_of t k))
           \<and> (\<forall>k task err. map_of t k = Some (TaskPtr (Some task))
                 \<and> \<not> Is (FSM task) TaskStateLeave
                 \<and> PeerCount task = 0 \<and> Event (FSM task) TaskEventLeave = Inl err
               \<longrightarrow> LogErrorf (ID task) ''task fsm event failed: %s'' err \<in> set lg)"
proof -
  from assms have d: "distinct (map fst t)" by (simp add: wf_registry_def)
  from Range_wf [OF assms d, of "[]"] obtain t' lg where
    r: "Map_Range (map fst t) (t, []) = Inr (t', lg)" and w: "wf_registry t'"
    and m: "\<forall>k. map_of t' k = (if k \<in> set (map fst t) then swept_entry (map_of t k) else map_of t k)"
    and e: "\<forall>k task err. k \<in> set (map fst t) \<and> map_of t k = Some (TaskPtr (Some task))
                 \<and> \<not> Is (FSM task) TaskStateLeave
                 \<and> PeerCount task = 0 \<and> Event (FSM task) TaskEventLeave = Inl err
               \<longrightarrow> LogErrorf (ID task) ''task fsm event failed: %s'' err \<in> set lg"
    by blast
  have "RunGC t = Inr (t', lg, None)" using r by (simp add: RunGC_def)
  moreover have "\<forall>k. map_of t' k = swept_entry (map_of t k)"
  proof
    fix k
    show "map_of t' k = swept_entry (map_of t k)"
    proof (cases "k \<in> set (map fst t)")
      case True
      with m show ?thesis by simp
    next
      case False
      then have "map_of t k = None" by (simp add: map_of_eq_None_iff)
      with m False show ?thesis by (simp add: swept_entry_def)
    qed
  qed
  moreover have "\<forall>k task err. map_of t k = Some (TaskPtr (Some task))
                 \<and> \<not> Is (FSM task) TaskStateLeave
                 \<and> PeerCount task = 0 \<and> Event (FSM task) TaskEventLeave = Inl err
               \<longrightarrow> LogErrorf (ID task) ''task fsm event failed: %s'' err \<in> set lg"
  proof (intro allI impI)
    fix k task err
    assume a: "map_of t k = Some (TaskPtr (Some task))
                 \<and> \<not> Is (FSM task) TaskStateLeave
                 \<and> PeerCount task = 0 \<and> Event (FSM task) TaskEventLeave = Inl err"
    then have "k \<in> set (map fst t)"
      by (metis map_of_eq_None_iff option.distinct(1) set_map)
    with a e show "LogErrorf (ID task) ''task fsm event failed: %s'' err \<in> set lg" by blast
  qed
  ultimately show ?thesis using w by blast
qed

section \<open>Sequences of operations keep the registry well formed\<close>

lemma mutate_wf:
  assumes "wf_registry t"
  shows "wf_registry (mutate t key f)"
proof (cases "map_of t key")
  case None
  then show ?thesis using assms by (simp add: mutate_def)
next
  case (Some v)
  from wf_registry_lookup [OF assms Some] obtain task where
    v: "v = TaskPtr (Some task)" and k: "ID task = key" by blast
  have "ID ((f task)\<lparr>ID := ID task\<rparr>) = key" using k by simp
  from wf_registry_update [OF assms this] Some v show ?thesis
    by (simp add: mutate_def)
qed

lemma Load_wf:
  assumes "wf_registry t"
  shows "\<exists>r. Load t key = Inr r"
proof (cases "map_of t key")
  case None
  then have "Load t key = Inr (None, False)" by (simp add: Load_def Map_Load_def)
  then show ?thesis by blast
next
  case (Some v)
  from wf_registry_lookup [OF assms Some] obtain task where "v = TaskPtr (Some task)" by blast
  with Some have "Load t key = Inr (Some task, True)"
    by (simp add: Load_def Map_Load_def assert_Task_def)
  then show ?thesis by blast
qed

lemma Store_wf:
  assumes "wf_registry t"
  shows "Store t (Some task) = Inr (AList.update (ID task) (TaskPtr (Some task)) t)
         \<and> wf_registry (AList.update (ID task) (TaskPtr (Some task)) t)"
  using wf_registry_update [OF assms refl, of task]
  by (simp add: Store_def Map_Store_def)

lemma LoadOrStore_loaded:
  assumes "map_of t (ID task) = Some (TaskPtr stored)"
  shows "LoadOrStore t (Some task) = Inr (t, stored, True)"
  using assms by (simp add: LoadOrStore_def Map_LoadOrStore_def assert_Task_def)

lemma LoadOrStore_stored:
  assumes "map_of t (ID task) = None"
  shows "LoadOrStore t (Some task) =
           Inr (AList.update (ID task) (TaskPtr (Some task)) t, Some task, False)"
  using assms by (simp add: LoadOrStore_def Map_LoadOrStore_def assert_Task_def)

lemma LoadOrStore_wf:
  assumes "wf_registry t"
  shows "\<exists>t' r. LoadOrStore t (Some task) = Inr (t', r) \<and> wf_registry t'"
proof (cases "map_of t (ID task)")
  case None
  from LoadOrStore_stored [OF None] wf_registry_update [OF assms refl, of task]
  show ?thesis by blast
next
  case (Some v)
  from wf_registry_lookup [OF assms Some] obtain stored where "v = TaskPtr (Some stored)"
    by blast
  with Some LoadOrStore_loaded [of t task "Some stored"] assms show ?thesis by blast
qed

lemma apply_operation_wf:
  assumes "wf_registry t"
  shows "case apply_operation op t of
           Inl p \<Rightarrow> p = NilDereference ''task.ID'' \<and> (op = OpStore None \<or> op = OpLoadOrStore None)
         | Inr t' \<Rightarrow> wf_registry t'"
proof (cases op)
  case (OpLoad key)
  with Load_wf [OF assms, of key] assms show ?thesis by auto
next
  case (OpStore task)
  show ?thesis
  proof (cases task)
    case None
    with OpStore show ?thesis by (simp add: Store_def)
  next
    case (Some tk)
    with OpStore Store_wf [OF assms, of tk] show ?thesis by simp
  qed
next
  case (OpLoadOrStore task)
  show ?thesis
  proof (cases task)
    case None
    with OpLoadOrStore show ?thesis by (simp add: LoadOrStore_def)
  next
    case (Some tk)
    with OpLoadOrStore LoadOrStore_wf [OF assms, of tk] show ?thesis by auto
  qed
next
  case (OpDelete key)
  with wf_registry_delete [OF assms, of key] show ?thesis
    by (simp add: Delete_def Map_Delete_def)
next
  case OpRunGC
  with RunGC_wf [OF assms] show ?thesis by auto
next
  case (OpMutate key f)
  with mutate_wf [OF assms, of key f] show ?thesis by simp
qed

lemma run_wf:
  assumes "wf_registry t"
  shows "case run ops t of
           Inl p \<Rightarrow> p = NilDereference ''task.ID''
              \<and> (OpStore None \<in> set ops \<or> OpLoadOrStore None \<in> set ops)
         | Inr t' \<Rightarrow> wf_registry t'"
  using assms
proof (induction ops arbitrary: t)
  case Nil
  then show ?case by simp
next
  case (Cons op ops)
  show ?case
  proof (cases "apply_operation op t")
    case (Inl p)
    with apply_operation_wf [OF Cons.prems, of op] show ?thesis by auto
  next
    case (Inr t1)
    with apply_operation_wf [OF Cons.prems, of op] have "wf_registry t1" by simp
    from Cons.IH [OF this] Inr show ?thesis
      by (auto split: sum.splits)
  qed
qed

section \<open>Claims about the registry\<close>

text \<open>
  C4. For every registry that a sequence of operations builds from the empty one:
  \<open>Load\<close> returns \<open>(t, true)\<close> exactly when the task \<open>t\<close> is stored under the key, and
  \<open>(nil, false)\<close> exactly when no task is stored there; \<open>LoadOrStore\<close> returns the task
  already stored under the \<open>ID\<close> with \<open>loaded = true\<close> and leaves the registry as it is,
  and otherwise stores the given task and returns it with \<open>loaded = false\<close>; after
  \<open>Delete\<close> of an \<open>ID\<close>, \<open>Load\<close> of it returns \<open>(nil, false)\<close>; after \<open>Store\<close> of a
  task, \<open>Load\<close> of its \<open>ID\<close> returns it with \<open>true\<close>.
\<close>

theorem registry_operations:
  assumes "run ops [] = Inr t"
  shows "(Load t key = Inr (Some task, True) \<longleftrightarrow> map_of t key = Some (TaskPtr (Some task)))
    \<and> (Load t key = Inr (None, False) \<longleftrightarrow>
         (\<forall>stored. map_of t key \<noteq> Some (TaskPtr (Some stored))))
    \<and> (map_of t (ID task) = Some (TaskPtr (Some stored)) \<longrightarrow>
         LoadOrStore t (Some task) = Inr (t, Some stored, True))
    \<and> ((\<forall>stored. map_of t (ID task) \<noteq> Some (TaskPtr (Some stored))) \<longrightarrow>
         (\<exists>t'. LoadOrStore t (Some task) = Inr (t', Some task, False)
            \<and> Load t' (ID task) = Inr (Some task, True)))
    \<and> Load (Delete t (ID task)) (ID task) = Inr (None, False)
    \<and> (\<exists>t'. Store t (Some task) = Inr t' \<and> Load t' (ID task) = Inr (Some task, True))"
proof -
  from run_wf [OF wf_registry_Nil, of ops] assms have w: "wf_registry t" by simp
  have absent: "map_of t k = None" if "\<forall>stored. map_of t k \<noteq> Some (TaskPtr (Some stored))" for k
  proof (cases "map_of t k")
    case None
    then show ?thesis .
  next
    case (Some v)
    from wf_registry_lookup [OF w Some] Some that show ?thesis by blast
  qed
  have 1: "Load t key = Inr (Some task, True) \<longleftrightarrow> map_of t key = Some (TaskPtr (Some task))"
    by (rule Load_stored_iff)
  have 2: "Load t key = Inr (None, False) \<longleftrightarrow>
         (\<forall>stored. map_of t key \<noteq> Some (TaskPtr (Some stored)))"
    using absent [of key] by (auto simp: Load_absent_iff)
  have 3: "map_of t (ID task) = Some (TaskPtr (Some stored)) \<longrightarrow>
         LoadOrStore t (Some task) = Inr (t, Some stored, True)"
    by (simp add: LoadOrStore_loaded)
  have l: "Load (AList.update (ID task) (TaskPtr (Some task)) t) (ID task) = Inr (Some task, True)"
    by (simp add: Load_stored_iff update_conv')
  have 4: "(\<forall>stored. map_of t (ID task) \<noteq> Some (TaskPtr (Some stored))) \<longrightarrow>
         (\<exists>t'. LoadOrStore t (Some task) = Inr (t', Some task, False)
            \<and> Load t' (ID task) = Inr (Some task, True))"
    using absent [of "ID task"] LoadOrStore_stored [of t task] l by auto
  have 5: "Load (Delete t (ID task)) (ID task) = Inr (None, False)"
    by (simp add: Load_absent_iff Delete_def Map_Delete_def delete_conv')
  have 6: "\<exists>t'. Store t (Some task) = Inr t' \<and> Load t' (ID task) = Inr (Some task, True)"
    using l by (simp add: Store_def Map_Store_def)
  from 1 2 3 4 5 6 show ?thesis by blast
qed

theorem registry_operations_witness:
  "run [OpStore (Some (NewTask ''task-0'' ''example.com''))] []
     = Inr [(''task-0'', TaskPtr (Some (NewTask ''task-0'' ''example.com'')))]
   \<and> Load [(''task-0'', TaskPtr (Some (NewTask ''task-0'' ''example.com'')))] ''task-0''
       = Inr (Some (NewTask ''task-0'' ''example.com''), True)
   \<and> Load [(''task-0'', TaskPtr (Some (NewTask ''task-0'' ''example.com'')))] ''task-1''
       = Inr (None, False)
   \<and> LoadOrStore [(''task-0'', TaskPtr (Some (NewTask ''task-0'' ''example.com'')))]
        (Some (NewTask ''task-0'' ''example.org''))
       = Inr ([(''task-0'', TaskPtr (Some (NewTask ''task-0'' ''example.com'')))],
              Some (NewTask ''task-0'' ''example.com''), True)"
proof -
  have h: "run [OpStore (Some (NewTask ''task-0'' ''example.com''))] []
     = Inr [(''task-0'', TaskPtr (Some (NewTask ''task-0'' ''example.com'')))]"
    by (simp add: Store_def Map_Store_def NewTask_def)
  have i: "ID (NewTask ''task-0'' ''example.org'') = ''task-0''"
    by (simp add: NewTask_def)
  have m: "map_of [(''task-0'', TaskPtr (Some (NewTask ''task-0'' ''example.com'')))] ''task-0''
     = Some (TaskPtr (Some (NewTask ''task-0'' ''example.com'')))" by simp
  have n: "\<forall>stored. map_of [(''task-0'', TaskPtr (Some (NewTask ''task-0'' ''example.com'')))] ''task-1''
     \<noteq> Some (TaskPtr (Some stored))" by simp
  from registry_operations [OF h, of "''task-0''" "NewTask ''task-0'' ''example.com''"]
    registry_operations [OF h, of "''task-1''"]
    registry_operations [OF h, of _ "NewTask ''task-0'' ''example.org''" "NewTask ''task-0'' ''example.com''"]
    h i m n
  show ?thesis by simp
qed

lemma example_registry_wf: "wf_registry example_registry"
  by (simp add: wf_registry_def example_registry_def stored_task_def example_task_def)

section \<open>Claims about the sweep\<close>

text \<open>
  C1. In one sweep over a well-formed registry, every task in the state \<open>Leave\<close> is
  deleted; every task not in \<open>Leave\<close> whose peer count is zero has the \<open>Leave\<close> event
  fired on its state machine (its entry afterwards holds the task as \<open>Event\<close> leaves it)
  and is still in the registry after that sweep, as is every task not in \<open>Leave\<close> that has
  peers. So an empty task is deleted no earlier than the sweep after the one that found it
  empty: when the event takes it to \<open>Leave\<close>, the next sweep deletes it.
\<close>

theorem RunGC_two_pass:
  assumes "wf_registry t"
  shows "\<exists>t' lg. RunGC t = Inr (t', lg, None) \<and>
     (\<forall>key task. map_of t key = Some (TaskPtr (Some task)) \<longrightarrow>
        (Is (FSM task) TaskStateLeave \<longrightarrow> map_of t' key = None)
      \<and> (\<not> Is (FSM task) TaskStateLeave \<and> PeerCount task = 0 \<longrightarrow>
           map_of t' key =
             Some (TaskPtr (Some (case Event (FSM task) TaskEventLeave of
                                    Inl err \<Rightarrow> task
                                  | Inr f \<Rightarrow> task\<lparr>FSM := f\<rparr>))))
      \<and> (\<not> Is (FSM task) TaskStateLeave \<and> PeerCount task \<noteq> 0 \<longrightarrow>
           map_of t' key = Some (TaskPtr (Some task)))
      \<and> (\<not> Is (FSM task) TaskStateLeave \<and> PeerCount task = 0
           \<and> transitions (FSM task) (TaskEventLeave, current (FSM task)) = Some TaskStateLeave \<longrightarrow>
           (\<exists>t'' lg''. RunGC t' = Inr (t'', lg'', None) \<and> map_of t'' key = None)))"
proof -
  from RunGC_wf [OF assms] obtain t' lg where
    r: "RunGC t = Inr (t', lg, None)" and w: "wf_registry t'"
    and m: "\<forall>k. map_of t' k = swept_entry (map_of t k)" by blast
  from RunGC_wf [OF w] obtain t'' lg'' where
    r': "RunGC t' = Inr (t'', lg'', None)"
    and m': "\<forall>k. map_of t'' k = swept_entry (map_of t' k)" by blast
  have "(Is (FSM task) TaskStateLeave \<longrightarrow> map_of t' key = None)
      \<and> (\<not> Is (FSM task) TaskStateLeave \<and> PeerCount task = 0 \<longrightarrow>
           map_of t' key =
             Some (TaskPtr (Some (case Event (FSM task) TaskEventLeave of
                                    Inl err \<Rightarrow> task
                                  | Inr f \<Rightarrow> task\<lparr>FSM := f\<rparr>))))
      \<and> (\<not> Is (FSM task) TaskStateLeave \<and> PeerCount task \<noteq> 0 \<longrightarrow>
           map_of t' key = Some (TaskPtr (Some task)))
      \<and> (\<not> Is (FSM task) TaskStateLeave \<and> PeerCount task = 0
           \<and> transitions (FSM task) (TaskEventLeave, current (FSM task)) = Some TaskStateLeave \<longrightarrow>
           (\<exists>t'' lg''. RunGC t' = Inr (t'', lg'', None) \<and> map_of t'' key = None))"
    if s: "map_of t key = Some (TaskPtr (Some task))" for key task
  proof -
    from m s have e: "map_of t' key = map_option (\<lambda>task'. TaskPtr (Some task')) (swept task)"
      by (simp add: swept_entry_def)
    have 1: "Is (FSM task) TaskStateLeave \<longrightarrow> map_of t' key = None"
      using e by (simp add: swept_def)
    have 2: "\<not> Is (FSM task) TaskStateLeave \<and> PeerCount task = 0 \<longrightarrow>
           map_of t' key =
             Some (TaskPtr (Some (case Event (FSM task) TaskEventLeave of
                                    Inl err \<Rightarrow> task
                                  | Inr f \<Rightarrow> task\<lparr>FSM := f\<rparr>)))"
      using e by (simp add: swept_def split: sum.splits)
    have 3: "\<not> Is (FSM task) TaskStateLeave \<and> PeerCount task \<noteq> 0 \<longrightarrow>
           map_of t' key = Some (TaskPtr (Some task))"
      using e by (simp add: swept_def)
    have 4: "\<exists>t'' lg''. RunGC t' = Inr (t'', lg'', None) \<and> map_of t'' key = None"
      if a: "\<not> Is (FSM task) TaskStateLeave \<and> PeerCount task = 0
           \<and> transitions (FSM task) (TaskEventLeave, current (FSM task)) = Some TaskStateLeave"
    proof -
      from a have ev: "Event (FSM task) TaskEventLeave = Inr ((FSM task)\<lparr>current := TaskStateLeave\<rparr>)"
        by (simp add: Event_def)
      with a e have "map_of t' key =
          Some (TaskPtr (Some (task\<lparr>FSM := (FSM task)\<lparr>current := TaskStateLeave\<rparr>\<rparr>)))"
        by (simp add: swept_def)
      with m' have "map_of t'' key = None"
        by (simp add: swept_entry_def swept_def Is_def)
      with r' show ?thesis by blast
    qed
    from 1 2 3 4 show ?thesis by blast
  qed
  with r show ?thesis by blast
qed

theorem RunGC_two_pass_witness:
  "wf_registry example_registry \<and>
   (\<exists>t' lg. RunGC example_registry = Inr (t', lg, None)
      \<and> map_of t' ''task-0'' = None
      \<and> map_of t' ''task-1'' = Some (TaskPtr (Some (example_task ''task-1''
            \<lparr>current = TaskStateLeave, transitions = task_transitions\<rparr> [])))
      \<and> map_of t' ''task-2'' = Some (TaskPtr (Some (example_task ''task-2''
            \<lparr>current = TaskStateRunning, transitions = task_transitions\<rparr> [''peer-0''])))
      \<and> (\<exists>t'' lg''. RunGC t' = Inr (t'', lg'', None) \<and> map_of t'' ''task-1'' = None))"
proof -
  have h: "wf_registry example_registry" by (rule example_registry_wf)
  from RunGC_two_pass [OF h] obtain t' lg where
    r: "RunGC example_registry = Inr (t', lg, None)"
    and a: "\<And>key task. map_of example_registry key = Some (TaskPtr (Some task)) \<Longrightarrow>
        (Is (FSM task) TaskStateLeave \<longrightarrow> map_of t' key = None)
      \<and> (\<not> Is (FSM task) TaskStateLeave \<and> PeerCount task = 0 \<longrightarrow>
           map_of t' key =
             Some (TaskPtr (Some (case Event (FSM task) TaskEventLeave of
                                    Inl err \<Rightarrow> task
                                  | Inr f \<Rightarrow> task\<lparr>FSM := f\<rparr>))))
      \<and> (\<not> Is (FSM task) TaskStateLeave \<and> PeerCount task \<noteq> 0 \<longrightarrow>
           map_of t' key = Some (TaskPtr (Some task)))
      \<and> (\<not> Is (FSM task) TaskStateLeave \<and> PeerCount task = 0
           \<and> transitions (FSM task) (TaskEventLeave, current (FSM task)) = Some TaskStateLeave \<longrightarrow>
           (\<exists>t'' lg''. RunGC t' = Inr (t'', lg'', None) \<and> map_of t'' key = None))"
    by blast
  have 0: "map_of t' ''task-0'' = None"
    using a [of "''task-0''" "example_task ''task-0''
          \<lparr>current = TaskStateLeave, transitions = task_transitions\<rparr> []"]
    by (simp add: example_registry_def example_task_def Is_def)
  have 1: "map_of t' ''task-1'' = Some (TaskPtr (Some (example_task ''task-1''
            \<lparr>current = TaskStateLeave, transitions = task_transitions\<rparr> [])))
        \<and> (\<exists>t'' lg''. RunGC t' = Inr (t'', lg'', None) \<and> map_of t'' ''task-1'' = None)"
    using a [of "''task-1''" "example_task ''task-1''
          \<lparr>current = TaskStateSucceeded, transitions = task_transitions\<rparr> []"]
    by (simp add: example_registry_def example_task_def Is_def PeerCount_def Event_def)
  have 2: "map_of t' ''task-2'' = Some (TaskPtr (Some (example_task ''task-2''
            \<lparr>current = TaskStateRunning, transitions = task_transitions\<rparr> [''peer-0''])))"
    using a [of "''task-2''" "example_task ''task-2''
          \<lparr>current = TaskStateRunning, transitions = task_transitions\<rparr> [''peer-0'']"]
    by (simp add: example_registry_def example_task_def Is_def PeerCount_def)
  from h r 0 1 2 show ?thesis by blast
qed

text \<open>
  C3 as stated fails: the sweep deletes a task in the state \<open>Leave\<close> that has a peer.
\<close>

theorem Leave_task_deleted_counterexample:
  "Is (FSM (example_task ''task-0''
         \<lparr>current = TaskStateLeave, transitions = task_transitions\<rparr> [''peer-0''])) TaskStateLeave
   \<and> PeerCount (example_task ''task-0''
         \<lparr>current = TaskStateLeave, transitions = task_transitions\<rparr> [''peer-0'']) = 1
   \<and> RunGC [(''task-0'', TaskPtr (Some (example_task ''task-0''
         \<lparr>current = TaskStateLeave, transitions = task_transitions\<rparr> [''peer-0''])))]
     = Inr ([], [LogInfo ''task-0'' ''task has been reclaimed''], None)"
  by (simp add: RunGC_def Map_Load_def gc_callback_def example_task_def Is_def PeerCount_def
        Delete_def Map_Delete_def)

text \<open>
  C3, amended. The sweep does not look at the peer count of a task in the state
  \<open>Leave\<close>: a task that one sweep finds empty and takes to \<open>Leave\<close> is deleted by the
  next sweep whatever peers and edges its graph has received in between.
\<close>

theorem Leave_task_deleted_without_recheck:
  assumes "wf_registry t" and "map_of t key = Some (TaskPtr (Some task))"
    and "\<not> Is (FSM task) TaskStateLeave" and "PeerCount task = 0"
    and "transitions (FSM task) (TaskEventLeave, current (FSM task)) = Some TaskStateLeave"
  shows "\<exists>t1 lg1. RunGC t = Inr (t1, lg1, None)
     \<and> map_of t1 key = Some (TaskPtr (Some (task\<lparr>FSM := (FSM task)\<lparr>current := TaskStateLeave\<rparr>\<rparr>)))
     \<and> (\<exists>t2 lg2. RunGC (mutate t1 key (repopulate peers es)) = Inr (t2, lg2, None)
           \<and> map_of t2 key = None)"
proof -
  from RunGC_wf [OF assms(1)] obtain t1 lg1 where
    r: "RunGC t = Inr (t1, lg1, None)" and w: "wf_registry t1"
    and m: "\<forall>k. map_of t1 k = swept_entry (map_of t k)" by blast
  from assms(5) have ev: "Event (FSM task) TaskEventLeave = Inr ((FSM task)\<lparr>current := TaskStateLeave\<rparr>)"
    by (simp add: Event_def)
  with m assms have e: "map_of t1 key =
      Some (TaskPtr (Some (task\<lparr>FSM := (FSM task)\<lparr>current := TaskStateLeave\<rparr>\<rparr>)))"
    by (simp add: swept_entry_def swept_def)
  let ?t = "mutate t1 key (repopulate peers es)"
  from mutate_wf [OF w] have w': "wf_registry ?t" .
  from RunGC_wf [OF w'] obtain t2 lg2 where
    r2: "RunGC ?t = Inr (t2, lg2, None)"
    and m2: "\<forall>k. map_of t2 k = swept_entry (map_of ?t k)" by blast
  from e have "\<exists>task'. map_of ?t key = Some (TaskPtr (Some task')) \<and> Is (FSM task') TaskStateLeave"
    by (simp add: mutate_def update_conv' repopulate_def Is_def)
  with m2 have "map_of t2 key = None"
    by (auto simp: swept_entry_def swept_def)
  with r r2 e show ?thesis by blast
qed

theorem Leave_task_deleted_without_recheck_witness:
  "wf_registry example_registry
   \<and> map_of example_registry ''task-1'' = Some (TaskPtr (Some (example_task ''task-1''
          \<lparr>current = TaskStateSucceeded, transitions = task_transitions\<rparr> [])))
   \<and> (\<exists>t1 lg1. RunGC example_registry = Inr (t1, lg1, None)
        \<and> map_of t1 ''task-1'' = Some (TaskPtr (Some (example_task ''task-1''
            \<lparr>current = TaskStateLeave, transitions = task_transitions\<rparr> [])))
        \<and> (\<exists>t2 lg2. RunGC (mutate t1 ''task-1'' (repopulate [''peer-0'', ''peer-1''] [(''peer-0'', ''peer-1'')]))
                      = Inr (t2, lg2, None)
              \<and> map_of t2 ''task-1'' = None))"
proof -
  have h: "wf_registry example_registry" by (rule example_registry_wf)
  have s: "map_of example_registry ''task-1'' = Some (TaskPtr (Some (example_task ''task-1''
          \<lparr>current = TaskStateSucceeded, transitions = task_transitions\<rparr> [])))"
    by (simp add: example_registry_def)
  have 1: "\<not> Is (FSM (example_task ''task-1''
          \<lparr>current = TaskStateSucceeded, transitions = task_transitions\<rparr> [])) TaskStateLeave"
    by (simp add: example_task_def Is_def)
  have 2: "PeerCount (example_task ''task-1''
          \<lparr>current = TaskStateSucceeded, transitions = task_transitions\<rparr> []) = 0"
    by (simp add: example_task_def PeerCount_def)
  have 3: "transitions (FSM (example_task ''task-1''
          \<lparr>current = TaskStateSucceeded, transitions = task_transitions\<rparr> []))
        (TaskEventLeave, current (FSM (example_task ''task-1''
          \<lparr>current = TaskStateSucceeded, transitions = task_transitions\<rparr> []))) = Some TaskStateLeave"
    by (simp add: example_task_def)
  from Leave_task_deleted_without_recheck [OF h s 1 2 3,
      of "[''peer-0'', ''peer-1'']" "[(''peer-0'', ''peer-1'')]"] h s
  show ?thesis by (simp add: example_task_def)
qed

text \<open>
  C5. \<open>RunGC\<close> never returns an error. On a well-formed registry it returns \<open>nil\<close>; a
  task on which the \<open>Leave\<close> event fails stays in the registry unchanged, the failure is
  written to the log, and every entry of the registry, before and after such a task, is
  swept as usual.
\<close>

theorem RunGC_returns_nil:
  "(\<forall>t' lg err. RunGC t = Inr (t', lg, err) \<longrightarrow> err = None)
   \<and> (wf_registry t \<longrightarrow>
        (\<exists>t' lg. RunGC t = Inr (t', lg, None)
           \<and> (\<forall>key task err. map_of t key = Some (TaskPtr (Some task))
                  \<and> \<not> Is (FSM task) TaskStateLeave \<and> PeerCount task = 0
                  \<and> Event (FSM task) TaskEventLeave = Inl err \<longrightarrow>
                map_of t' key = Some (TaskPtr (Some task))
                \<and> LogErrorf (ID task) ''task fsm event failed: %s'' err \<in> set lg)
           \<and> (\<forall>key. map_of t' key = swept_entry (map_of t key))))"
proof (intro conjI impI)
  show "\<forall>t' lg err. RunGC t = Inr (t', lg, err) \<longrightarrow> err = None"
    by (auto simp: RunGC_def split: sum.splits)
next
  assume w: "wf_registry t"
  from RunGC_wf [OF w] obtain t' lg where
    r: "RunGC t = Inr (t', lg, None)"
    and m: "\<forall>k. map_of t' k = swept_entry (map_of t k)"
    and e: "\<forall>k task err. map_of t k = Some (TaskPtr (Some task))
                 \<and> \<not> Is (FSM task) TaskStateLeave
                 \<and> PeerCount task = 0 \<and> Event (FSM task) TaskEventLeave = Inl err
               \<longrightarrow> LogErrorf (ID task) ''task fsm event failed: %s'' err \<in> set lg"
    by blast
  have "\<forall>key task err. map_of t key = Some (TaskPtr (Some task))
                  \<and> \<not> Is (FSM task) TaskStateLeave \<and> PeerCount task = 0
                  \<and> Event (FSM task) TaskEventLeave = Inl err \<longrightarrow>
                map_of t' key = Some (TaskPtr (Some task))
                \<and> LogErrorf (ID task) ''task fsm event failed: %s'' err \<in> set lg"
  proof (intro allI impI)
    fix key task err
    assume a: "map_of t key = Some (TaskPtr (Some task))
                  \<and> \<not> Is (FSM task) TaskStateLeave \<and> PeerCount task = 0
                  \<and> Event (FSM task) TaskEventLeave = Inl err"
    with m have "map_of t' key = Some (TaskPtr (Some task))"
      by (simp add: swept_entry_def swept_def)
    moreover from a e have "LogErrorf (ID task) ''task fsm event failed: %s'' err \<in> set lg"
      by blast
    ultimately show "map_of t' key = Some (TaskPtr (Some task))
                \<and> LogErrorf (ID task) ''task fsm event failed: %s'' err \<in> set lg" ..
  qed
  with r m show "\<exists>t' lg. RunGC t = Inr (t', lg, None)
           \<and> (\<forall>key task err. map_of t key = Some (TaskPtr (Some task))
                  \<and> \<not> Is (FSM task) TaskStateLeave \<and> PeerCount task = 0
                  \<and> Event (FSM task) TaskEventLeave = Inl err \<longrightarrow>
                map_of t' key = Some (TaskPtr (Some task))
                \<and> LogErrorf (ID task) ''task fsm event failed: %s'' err \<in> set lg)
           \<and> (\<forall>key. map_of t' key = swept_entry (map_of t key))"
    by blast
qed

theorem RunGC_returns_nil_witness:
  "wf_registry stuck_registry
   \<and> Event \<lparr>current = TaskStateRunning, transitions = (\<lambda>x. None)\<rparr> TaskEventLeave
       = Inl (StateTransitionError TaskStateRunning TaskEventLeave)
   \<and> (\<exists>t' lg. RunGC stuck_registry = Inr (t', lg, None)
        \<and> map_of t' ''task-3'' = Some (TaskPtr (Some (example_task ''task-3''
              \<lparr>current = TaskStateRunning, transitions = (\<lambda>x. None)\<rparr> [])))
        \<and> LogErrorf ''task-3'' ''task fsm event failed: %s''
             (StateTransitionError TaskStateRunning TaskEventLeave) \<in> set lg
        \<and> map_of t' ''task-0'' = None)"
proof -
  have h: "wf_registry stuck_registry"
    by (simp add: wf_registry_def stuck_registry_def example_registry_def stored_task_def
          example_task_def)
  have e: "Event \<lparr>current = TaskStateRunning, transitions = (\<lambda>x. None)\<rparr> TaskEventLeave
       = Inl (StateTransitionError TaskStateRunning TaskEventLeave)"
    by (simp add: Event_def)
  from RunGC_returns_nil [of stuck_registry] h obtain t' lg where
    r: "RunGC stuck_registry = Inr (t', lg, None)"
    and a: "\<And>key task err. map_of stuck_registry key = Some (TaskPtr (Some task))
                  \<and> \<not> Is (FSM task) TaskStateLeave \<and> PeerCount task = 0
                  \<and> Event (FSM task) TaskEventLeave = Inl err \<Longrightarrow>
                map_of t' key = Some (TaskPtr (Some task))
                \<and> LogErrorf (ID task) ''task fsm event failed: %s'' err \<in> set lg"
    and m: "\<And>key. map_of t' key = swept_entry (map_of stuck_registry key)"
    by blast
  have 1: "map_of t' ''task-3'' = Some (TaskPtr (Some (example_task ''task-3''
              \<lparr>current = TaskStateRunning, transitions = (\<lambda>x. None)\<rparr> [])))
        \<and> LogErrorf ''task-3'' ''task fsm event failed: %s''
             (StateTransitionError TaskStateRunning TaskEventLeave) \<in> set lg"
    using a [of "''task-3''" "example_task ''task-3''
              \<lparr>current = TaskStateRunning, transitions = (\<lambda>x. None)\<rparr> []"
             "StateTransitionError TaskStateRunning TaskEventLeave"]
    by (simp add: stuck_registry_def example_task_def Is_def PeerCount_def Event_def)
  have 2: "map_of t' ''task-0'' = None"
    using m [of "''task-0''"]
    by (simp add: stuck_registry_def example_registry_def swept_entry_def swept_def
          example_task_def Is_def)
  from h e r 1 2 show ?thesis by blast
qed

section \<open>The sweep over tasks that the constructor did not build\<close>

lemma of_registry_keys: "map fst (of_registry t) = map fst t"
  by (induction t) (auto simp: of_registry_def)

lemma of_registry_lookup: "map_of (of_registry t) k = map_option of_any (map_of t k)"
  by (simp add: of_registry_def map_of_map)

lemma of_registry_delete: "AList.delete k (of_registry t) = of_registry (AList.delete k t)"
  by (induction t) (auto simp: of_registry_def)

lemma of_registry_update:
  "AList.update k (of_any v) (of_registry t) = of_registry (AList.update k v t)"
  by (induction t) (auto simp: of_registry_def)

lemma gc_callback_struct_of_registry:
  "gc_callback_struct (of_registry t, lg) key (of_any v) =
     (case gc_callback (t, lg) key v of
        Inl p \<Rightarrow> Inl p
      | Inr (t', lg') \<Rightarrow> Inr (of_registry t', lg'))"
proof (cases v)
  case OtherValue
  then show ?thesis by (simp add: gc_callback_struct_def gc_callback_def of_any_def)
next
  case (TaskPtr p)
  show ?thesis
  proof (cases p)
    case None
    with TaskPtr show ?thesis by (simp add: gc_callback_struct_def gc_callback_def of_any_def)
  next
    case (Some task)
    have u: "AList.update key
          (StructPtr (Some \<lparr>struct_ID = ID task, struct_URL = URL task, struct_FSM = Some f,
                            struct_DAG = DAG task\<rparr>)) (of_registry t)
        = of_registry (AList.update key (TaskPtr (Some (task\<lparr>FSM := f\<rparr>))) t)" for f
      using of_registry_update [of key "TaskPtr (Some (task\<lparr>FSM := f\<rparr>))" t]
      by (simp add: of_any_def of_Task_def)
    from TaskPtr Some show ?thesis
      by (simp add: gc_callback_struct_def gc_callback_def of_any_def PeerCount_def
            Delete_struct_def Delete_def Map_Delete_def Map_Store_def of_registry_delete u
            of_Task_def split: sum.splits)
  qed
qed

lemma Map_Range_struct_of_registry:
  "Map_Range_struct keys (of_registry t, lg) =
     (case Map_Range keys (t, lg) of
        Inl p \<Rightarrow> Inl p
      | Inr (t', lg') \<Rightarrow> Inr (of_registry t', lg'))"
proof (induction keys arbitrary: t lg)
  case Nil
  then show ?case by simp
next
  case (Cons key keys)
  show ?case
  proof (cases "map_of t key")
    case None
    with Cons.IH [of t lg] show ?thesis
      by (simp add: of_registry_lookup Map_Load_def)
  next
    case (Some v)
    show ?thesis
    proof (cases "gc_callback (t, lg) key v")
      case (Inl p)
      with Some gc_callback_struct_of_registry [of t lg key v] show ?thesis
        by (simp add: of_registry_lookup Map_Load_def)
    next
      case (Inr s')
      obtain t1 lg1 where s': "s' = (t1, lg1)" by (cases s')
      with Inr Some gc_callback_struct_of_registry [of t lg key v] Cons.IH [of t1 lg1]
      show ?thesis
        by (simp add: of_registry_lookup Map_Load_def)
    qed
  qed
qed

lemma RunGC_struct_of_registry:
  "RunGC_struct (of_registry t) =
     (case RunGC t of
        Inl p \<Rightarrow> Inl p
      | Inr (t', lg, err) \<Rightarrow> Inr (of_registry t', lg, err))"
  by (simp add: RunGC_struct_def RunGC_def of_registry_keys Map_Range_struct_of_registry
        split: sum.splits)













section \<open>Concurrent first registration\<close>

lemma LoadOrStore_as_steps:
  "interleave [0, 0] (t, [Calling task]) =
     (case LoadOrStore t task of
        Inl p \<Rightarrow> (t, [Panicked p])
      | Inr (t', task', loaded) \<Rightarrow> (t', [Returned task' loaded]))"
  by (auto simp: schedule_def thread_step_def split: sum.splits)

lemma schedule_inv:
  assumes inv: "race_inv key tasks c" and ids: "\<forall>task \<in> set tasks. ID task = key"
  shows "race_inv key tasks (schedule j c)"
proof (cases c)
  case (Pair t ths)
  show ?thesis
  proof (cases "j < length ths")
    case False
    with Pair inv show ?thesis by (simp add: schedule_def)
  next
    case True
    from inv Pair have len: "length ths = length tasks" and d: "distinct (map fst t)"
      by (simp_all add: race_inv_def)
    from True len ids have idj: "ID (tasks ! j) = key" by simp
    show ?thesis
    proof (cases "map_of t key")
      case None
      with inv Pair have all: "\<forall>i < length tasks. ths ! i = Calling (Some (tasks ! i))"
        by (simp add: race_inv_def)
      with True len have "ths ! j = Calling (Some (tasks ! j))" by simp
      with None idj have s: "schedule j c =
          (AList.update key (TaskPtr (Some (tasks ! j))) t,
           ths[j := Returning (Some (tasks ! j)) False])"
        using True Pair LoadOrStore_stored [of t "tasks ! j"]
        by (simp add: schedule_def thread_step_def)
      have "\<exists>w < length tasks. TaskPtr (Some (tasks ! j)) = TaskPtr (Some (tasks ! w)) \<and>
               (ths[j := Returning (Some (tasks ! j)) False] ! w
                    = Returning (Some (tasks ! w)) False
                \<or> ths[j := Returning (Some (tasks ! j)) False] ! w
                    = Returned (Some (tasks ! w)) False) \<and>
               (\<forall>i < length tasks. i \<noteq> w \<longrightarrow>
                  ths[j := Returning (Some (tasks ! j)) False] ! i = Calling (Some (tasks ! i))
                  \<or> ths[j := Returning (Some (tasks ! j)) False] ! i
                      = Returning (Some (tasks ! w)) True
                  \<or> ths[j := Returning (Some (tasks ! j)) False] ! i
                      = Returned (Some (tasks ! w)) True)"
        using True len all by (intro exI [of _ j]) simp
      with s len d show ?thesis
        by (simp add: race_inv_def update_conv' distinct_update)
    next
      case (Some v)
      with inv Pair obtain w where w: "w < length tasks" and v: "v = TaskPtr (Some (tasks ! w))"
        and tw: "ths ! w = Returning (Some (tasks ! w)) False \<or> ths ! w = Returned (Some (tasks ! w)) False"
        and oth: "\<forall>i < length tasks. i \<noteq> w \<longrightarrow>
                  ths ! i = Calling (Some (tasks ! i)) \<or> ths ! i = Returning (Some (tasks ! w)) True
                  \<or> ths ! i = Returned (Some (tasks ! w)) True"
        by (auto simp: race_inv_def)
      have "\<exists>th'. schedule j c = (t, ths[j := th']) \<and>
          (if j = w then th' = Returning (Some (tasks ! w)) False \<or> th' = Returned (Some (tasks ! w)) False
           else th' = Calling (Some (tasks ! j)) \<or> th' = Returning (Some (tasks ! w)) True
                  \<or> th' = Returned (Some (tasks ! w)) True)"
      proof (cases "j = w")
        case True
        with tw v \<open>j < length ths\<close> Pair Some idj
          LoadOrStore_loaded [of t "tasks ! j" "Some (tasks ! w)"] show ?thesis
          by (auto simp: schedule_def thread_step_def)
      next
        case False
        with oth \<open>j < length ths\<close> len have
          "ths ! j = Calling (Some (tasks ! j)) \<or> ths ! j = Returning (Some (tasks ! w)) True
                  \<or> ths ! j = Returned (Some (tasks ! w)) True" by simp
        with False v Some idj \<open>j < length ths\<close> Pair
          LoadOrStore_loaded [of t "tasks ! j" "Some (tasks ! w)"] show ?thesis
          by (auto simp: schedule_def thread_step_def)
      qed
      then obtain th' where s: "schedule j c = (t, ths[j := th'])"
        and th': "if j = w then th' = Returning (Some (tasks ! w)) False \<or> th' = Returned (Some (tasks ! w)) False
           else th' = Calling (Some (tasks ! j)) \<or> th' = Returning (Some (tasks ! w)) True
                  \<or> th' = Returned (Some (tasks ! w)) True"
        by blast
      have "\<exists>w < length tasks. v = TaskPtr (Some (tasks ! w)) \<and>
               (ths[j := th'] ! w = Returning (Some (tasks ! w)) False
                 \<or> ths[j := th'] ! w = Returned (Some (tasks ! w)) False) \<and>
               (\<forall>i < length tasks. i \<noteq> w \<longrightarrow>
                  ths[j := th'] ! i = Calling (Some (tasks ! i)) \<or> ths[j := th'] ! i = Returning (Some (tasks ! w)) True
                  \<or> ths[j := th'] ! i = Returned (Some (tasks ! w)) True)"
        using w v tw oth th' True len
        by (intro exI [of _ w]) (auto simp: nth_list_update)
      with s len d Some show ?thesis
        by (simp add: race_inv_def)
    qed
  qed
qed

lemma interleave_inv:
  assumes "race_inv key tasks c" and "\<forall>task \<in> set tasks. ID task = key"
  shows "race_inv key tasks (interleave sched c)"
  using assms(1)
proof (induction sched arbitrary: c)
  case Nil
  then show ?case by simp
next
  case (Cons j sched)
  from schedule_inv [OF Cons.prems assms(2)] have "race_inv key tasks (schedule j c)" .
  from Cons.IH [OF this] show ?case by simp
qed

lemma schedule_threads:
  "length (snd (schedule j c)) = length (snd c)
   \<and> (i \<noteq> j \<longrightarrow> snd (schedule j c) ! i = snd c ! i)
   \<and> (j < length (snd c) \<longrightarrow> steps_left (snd (schedule j c) ! j) \<le> steps_left (snd c ! j) - 1)"
  by (cases c)
     (auto simp: schedule_def thread_step_def split: prod.splits thread.splits option.splits
        sum.splits)

lemma interleave_progress:
  "length (snd (interleave sched c)) = length (snd c)
   \<and> (\<forall>i < length (snd c).
        steps_left (snd (interleave sched c) ! i) \<le> steps_left (snd c ! i) - count_list sched i)"
proof (induction sched arbitrary: c)
  case Nil
  then show ?case by simp
next
  case (Cons j sched)
  let ?c = "schedule j c"
  from schedule_threads [of j c] have len: "length (snd ?c) = length (snd c)" by blast
  show ?case
  proof (intro conjI allI impI)
    show "length (snd (interleave (j # sched) c)) = length (snd c)"
      using Cons.IH [of ?c] len by simp
  next
    fix i assume i: "i < length (snd c)"
    with Cons.IH [of ?c] len have
      a: "steps_left (snd (interleave sched ?c) ! i) \<le> steps_left (snd ?c ! i) - count_list sched i"
      by simp
    show "steps_left (snd (interleave (j # sched) c) ! i)
            \<le> steps_left (snd c ! i) - count_list (j # sched) i"
    proof (cases "i = j")
      case True
      with i schedule_threads [of j c j] have
        "steps_left (snd ?c ! i) \<le> steps_left (snd c ! i) - 1" by simp
      with a True show ?thesis by simp
    next
      case False
      with schedule_threads [of j c i] have "snd ?c ! i = snd c ! i" by simp
      with a False show ?thesis by simp
    qed
  qed
qed

lemma race_inv_initial:
  assumes "wf_registry t" and "map_of t key = None"
  shows "race_inv key tasks (t, map (\<lambda>task. Calling (Some task)) tasks)"
  using assms by (simp add: race_inv_def wf_registry_def)

text \<open>
  C9. N callers invoke \<open>LoadOrStore\<close> concurrently with N tasks of one \<open>ID\<close>, on a
  well-formed registry that holds nothing under that \<open>ID\<close>. Under every schedule, at every
  moment, the keys of the registry are distinct, every caller that has returned holds the
  task stored under the \<open>ID\<close>, and at most one caller has returned \<open>loaded = false\<close>.
  Once every caller has taken its two steps, the task of exactly one caller \<open>w\<close> is stored,
  \<open>w\<close> has received it with \<open>loaded = false\<close>, each of the other callers has received
  that same task with \<open>loaded = true\<close>, and so does every later call of \<open>LoadOrStore\<close>
  with a task of that \<open>ID\<close>, which leaves the registry as it is.
\<close>

theorem LoadOrStore_race:
  assumes "wf_registry t" and "map_of t key = None" and "tasks \<noteq> []"
    and "\<forall>task \<in> set tasks. ID task = key"
    and "interleave sched (t, map (\<lambda>task. Calling (Some task)) tasks) = (t', ths)"
  shows "distinct (map fst t') \<and> length ths = length tasks
    \<and> (\<forall>i < length tasks. \<forall>r l. ths ! i = Returned r l \<longrightarrow> map_of t' key = Some (TaskPtr r))
    \<and> (\<forall>i < length tasks. \<forall>j < length tasks. \<forall>r r'.
          ths ! i = Returned r False \<and> ths ! j = Returned r' False \<longrightarrow> i = j)
    \<and> ((\<forall>i < length tasks. 2 \<le> count_list sched i) \<longrightarrow>
         (\<exists>w < length tasks. map_of t' key = Some (TaskPtr (Some (tasks ! w)))
            \<and> ths ! w = Returned (Some (tasks ! w)) False
            \<and> (\<forall>i < length tasks. i \<noteq> w \<longrightarrow> ths ! i = Returned (Some (tasks ! w)) True)
            \<and> (\<forall>task. ID task = key \<longrightarrow>
                  LoadOrStore t' (Some task) = Inr (t', Some (tasks ! w), True))))"
proof -
  let ?c = "(t, map (\<lambda>task. Calling (Some task)) tasks)"
  from interleave_inv [OF race_inv_initial [OF assms(1,2)] assms(4), of sched] assms(5)
  have inv: "race_inv key tasks (t', ths)" by simp
  then have d: "distinct (map fst t')" and len: "length ths = length tasks"
    by (simp_all add: race_inv_def)
  from assms(3) have pos: "0 < length tasks" by simp
  have 3: "\<forall>i < length tasks. \<forall>r l. ths ! i = Returned r l \<longrightarrow> map_of t' key = Some (TaskPtr r)"
  proof (cases "map_of t' key")
    case None
    with inv show ?thesis by (auto simp: race_inv_def)
  next
    case (Some v)
    with inv show ?thesis by (fastforce simp: race_inv_def)
  qed
  have 4: "\<forall>i < length tasks. \<forall>j < length tasks. \<forall>r r'.
          ths ! i = Returned r False \<and> ths ! j = Returned r' False \<longrightarrow> i = j"
  proof (cases "map_of t' key")
    case None
    with inv show ?thesis by (auto simp: race_inv_def)
  next
    case (Some v)
    with inv obtain w where w: "w < length tasks"
      and oth: "\<forall>i < length tasks. i \<noteq> w \<longrightarrow>
                  ths ! i = Calling (Some (tasks ! i)) \<or> ths ! i = Returning (Some (tasks ! w)) True
                  \<or> ths ! i = Returned (Some (tasks ! w)) True"
      by (auto simp: race_inv_def)
    have "i = w" if "i < length tasks" and "ths ! i = Returned r False" for i r
      using that oth by fastforce
    then show ?thesis by blast
  qed
  have 5: "\<exists>w < length tasks. map_of t' key = Some (TaskPtr (Some (tasks ! w)))
            \<and> ths ! w = Returned (Some (tasks ! w)) False
            \<and> (\<forall>i < length tasks. i \<noteq> w \<longrightarrow> ths ! i = Returned (Some (tasks ! w)) True)
            \<and> (\<forall>task. ID task = key \<longrightarrow>
                  LoadOrStore t' (Some task) = Inr (t', Some (tasks ! w), True))"
    if all: "\<forall>i < length tasks. 2 \<le> count_list sched i"
  proof -
    have fin: "steps_left (ths ! i) = 0" if "i < length tasks" for i
    proof -
      from interleave_progress [of sched ?c] assms(5) that
      have "steps_left (ths ! i) \<le> 2 - count_list sched i" by simp
      with all that show ?thesis by simp
    qed
    show ?thesis
    proof (cases "map_of t' key")
      case None
      with inv pos have "ths ! 0 = Calling (Some (tasks ! 0))" by (simp add: race_inv_def)
      with fin [OF pos] show ?thesis by simp
    next
      case (Some v)
      with inv obtain w where w: "w < length tasks" and v: "v = TaskPtr (Some (tasks ! w))"
        and tw: "ths ! w = Returning (Some (tasks ! w)) False \<or> ths ! w = Returned (Some (tasks ! w)) False"
        and oth: "\<forall>i < length tasks. i \<noteq> w \<longrightarrow>
                  ths ! i = Calling (Some (tasks ! i)) \<or> ths ! i = Returning (Some (tasks ! w)) True
                  \<or> ths ! i = Returned (Some (tasks ! w)) True"
        by (auto simp: race_inv_def)
      from tw fin [OF w] have "ths ! w = Returned (Some (tasks ! w)) False" by auto
      moreover have "\<forall>i < length tasks. i \<noteq> w \<longrightarrow> ths ! i = Returned (Some (tasks ! w)) True"
      proof (intro allI impI)
        fix i assume i: "i < length tasks" and "i \<noteq> w"
        with oth have "ths ! i = Calling (Some (tasks ! i)) \<or> ths ! i = Returning (Some (tasks ! w)) True
                  \<or> ths ! i = Returned (Some (tasks ! w)) True" by simp
        with fin [OF i] show "ths ! i = Returned (Some (tasks ! w)) True" by auto
      qed
      moreover have "\<forall>task. ID task = key \<longrightarrow>
                  LoadOrStore t' (Some task) = Inr (t', Some (tasks ! w), True)"
        using Some v by (simp add: LoadOrStore_def Map_LoadOrStore_def assert_Task_def)
      ultimately show ?thesis using w v Some by blast
    qed
  qed
  from d len 3 4 5 show ?thesis by blast
qed

theorem LoadOrStore_race_witness:
  "wf_registry [] \<and> map_of ([] :: taskManager) ''task-0'' = None
   \<and> interleave [1, 0, 2, 2, 0, 1]
        ([], map (\<lambda>task. Calling (Some task))
               [NewTask ''task-0'' ''a'', NewTask ''task-0'' ''b'', NewTask ''task-0'' ''c''])
      = ([(''task-0'', TaskPtr (Some (NewTask ''task-0'' ''b'')))],
         [Returned (Some (NewTask ''task-0'' ''b'')) True,
          Returned (Some (NewTask ''task-0'' ''b'')) False,
          Returned (Some (NewTask ''task-0'' ''b'')) True])
   \<and> (\<exists>w < length [NewTask ''task-0'' ''a'', NewTask ''task-0'' ''b'', NewTask ''task-0'' ''c''].
         map_of [(''task-0'', TaskPtr (Some (NewTask ''task-0'' ''b'')))] ''task-0''
                 = Some (TaskPtr (Some ([NewTask ''task-0'' ''a'', NewTask ''task-0'' ''b'',
                                         NewTask ''task-0'' ''c''] ! w)))
         \<and> LoadOrStore [(''task-0'', TaskPtr (Some (NewTask ''task-0'' ''b'')))]
               (Some (NewTask ''task-0'' ''d''))
             = Inr ([(''task-0'', TaskPtr (Some (NewTask ''task-0'' ''b'')))],
                    Some ([NewTask ''task-0'' ''a'', NewTask ''task-0'' ''b'',
                           NewTask ''task-0'' ''c''] ! w), True))"
proof -
  have e: "interleave [1, 0, 2, 2, 0, 1]
        ([], map (\<lambda>task. Calling (Some task))
               [NewTask ''task-0'' ''a'', NewTask ''task-0'' ''b'', NewTask ''task-0'' ''c''])
      = ([(''task-0'', TaskPtr (Some (NewTask ''task-0'' ''b'')))],
         [Returned (Some (NewTask ''task-0'' ''b'')) True,
          Returned (Some (NewTask ''task-0'' ''b'')) False,
          Returned (Some (NewTask ''task-0'' ''b'')) True])"
    by (simp add: schedule_def thread_step_def LoadOrStore_def Map_LoadOrStore_def
          assert_Task_def NewTask_def)
  have i: "\<forall>task \<in> set [NewTask ''task-0'' ''a'', NewTask ''task-0'' ''b'',
       NewTask ''task-0'' ''c'']. ID task = ''task-0''"
    by (simp add: NewTask_def)
  have n: "[NewTask ''task-0'' ''a'', NewTask ''task-0'' ''b'', NewTask ''task-0'' ''c''] \<noteq> []"
    by simp
  have m: "map_of ([] :: taskManager) ''task-0'' = None" by simp
  have c: "\<forall>i < length [NewTask ''task-0'' ''a'', NewTask ''task-0'' ''b'',
       NewTask ''task-0'' ''c'']. 2 \<le> count_list [1, 0, 2, 2, 0, 1] i"
    by (auto simp: less_Suc_eq)
  have d: "ID (NewTask ''task-0'' ''d'') = ''task-0''" by (simp add: NewTask_def)
  from LoadOrStore_race [OF wf_registry_Nil m n i e] c d
  have "\<exists>w < length [NewTask ''task-0'' ''a'', NewTask ''task-0'' ''b'', NewTask ''task-0'' ''c''].
     map_of [(''task-0'', TaskPtr (Some (NewTask ''task-0'' ''b'')))] ''task-0''
        = Some (TaskPtr (Some ([NewTask ''task-0'' ''a'', NewTask ''task-0'' ''b'',
                                         NewTask ''task-0'' ''c''] ! w)))
     \<and> LoadOrStore [(''task-0'', TaskPtr (Some (NewTask ''task-0'' ''b'')))]
               (Some (NewTask ''task-0'' ''d''))
             = Inr ([(''task-0'', TaskPtr (Some (NewTask ''task-0'' ''b'')))],
                    Some ([NewTask ''task-0'' ''a'', NewTask ''task-0'' ''b'',
                           NewTask ''task-0'' ''c''] ! w), True)"
    by blast
  with e m wf_registry_Nil show ?thesis by blast
qed

section \<open>The peer scheduling graph stays acyclic\<close>

lemma set_Children: "set (Children task v) = set (edges (DAG task)) `` {v}"
  by (force simp: Children_def)

lemma set_expand:
  "set (List.union visited (concat (map (Children task) visited)))
     = set visited \<union> set (edges (DAG task)) `` set visited"
  by (auto simp: set_Children)

lemma traverse_sound:
  "set (traverse task n visited) \<subseteq> (set (edges (DAG task)))\<^sup>* `` set visited"
proof (induction n arbitrary: visited)
  case 0
  then show ?case by auto
next
  case (Suc n)
  have "set (traverse task (Suc n) visited)
      \<subseteq> (set (edges (DAG task)))\<^sup>* `` (set visited \<union> set (edges (DAG task)) `` set visited)"
    using Suc.IH [of "List.union visited (concat (map (Children task) visited))"]
    by (simp only: traverse.simps set_expand)
  also have "\<dots> \<subseteq> (set (edges (DAG task)))\<^sup>* `` set visited"
    by (auto intro: converse_rtrancl_into_rtrancl)
  finally show ?case .
qed

lemma traverse_closed:
  assumes "set (edges (DAG task)) `` set visited \<subseteq> set visited"
  shows "set (traverse task n visited) = set visited"
  using assms
proof (induction n arbitrary: visited)
  case 0
  then show ?case by simp
next
  case (Suc n)
  let ?vs = "List.union visited (concat (map (Children task) visited))"
  from Suc.prems have e: "set ?vs = set visited" by (auto simp only: set_expand)
  with Suc.prems have "set (edges (DAG task)) `` set ?vs \<subseteq> set ?vs" by simp
  from Suc.IH [OF this] e show ?case by simp
qed

lemma traverse_complete:
  assumes "set (edges (DAG task)) \<subseteq> V \<times> V" and "finite V"
    and "set visited \<subseteq> V" and "card V < n + card (set visited)"
  shows "set (edges (DAG task)) `` set (traverse task n visited) \<subseteq> set (traverse task n visited)"
  using assms(3,4)
proof (induction n arbitrary: visited)
  case 0
  from card_mono [OF assms(2) "0.prems"(1)] "0.prems"(2) show ?case by simp
next
  case (Suc n)
  let ?vs = "List.union visited (concat (map (Children task) visited))"
  have e: "set ?vs = set visited \<union> set (edges (DAG task)) `` set visited"
    by (rule set_expand)
  show ?case
  proof (cases "set (edges (DAG task)) `` set visited \<subseteq> set visited")
    case True
    from traverse_closed [OF True, of "Suc n"] True show ?thesis by simp
  next
    case False
    with e have "set visited \<subset> set ?vs" by auto
    then have "card (set visited) < card (set ?vs)"
      by (intro psubset_card_mono) simp_all
    with Suc.prems(2) have c: "card V < n + card (set ?vs)" by simp
    from e Suc.prems(1) assms(1) have "set ?vs \<subseteq> V" by auto
    from Suc.IH [OF this c] show ?thesis by simp
  qed
qed

lemma traverse_mono: "set visited \<subseteq> set (traverse task n visited)"
proof (induction n arbitrary: visited)
  case 0
  then show ?case by simp
next
  case (Suc n)
  have "set visited \<subseteq> set (List.union visited (concat (map (Children task) visited)))"
    by (simp only: set_expand) blast
  also have "\<dots> \<subseteq> set (traverse task (Suc n) visited)"
    using Suc.IH [of "List.union visited (concat (map (Children task) visited))"]
    by (simp only: traverse.simps)
  finally show ?case .
qed

lemma reachable_iff:
  assumes "wf_dag task" and "src \<in> set (vertices (DAG task))"
  shows "reachable task src dst \<longleftrightarrow> (src, dst) \<in> (set (edges (DAG task)))\<^sup>*"
proof
  assume "reachable task src dst"
  with traverse_sound [of task "PeerCount task" "[src]"] show "(src, dst) \<in> (set (edges (DAG task)))\<^sup>*"
    by (auto simp: reachable_def)
next
  assume r: "(src, dst) \<in> (set (edges (DAG task)))\<^sup>*"
  let ?T = "set (traverse task (PeerCount task) [src])"
  from assms(1) have d: "distinct (vertices (DAG task))"
    and sub: "set (edges (DAG task)) \<subseteq> set (vertices (DAG task)) \<times> set (vertices (DAG task))"
    by (simp_all add: wf_dag_def)
  from d have "card (set (vertices (DAG task))) = PeerCount task"
    by (simp add: PeerCount_def distinct_card)
  then have "card (set (vertices (DAG task))) < PeerCount task + card (set [src])" by simp
  from traverse_complete [OF sub _ _ this] assms(2)
  have "set (edges (DAG task)) `` ?T \<subseteq> ?T" by simp
  then have "(set (edges (DAG task)))\<^sup>* `` ?T = ?T" by (rule Image_closed_trancl)
  moreover from traverse_mono [of "[src]" task "PeerCount task"] have "src \<in> ?T" by simp
  ultimately have "dst \<in> ?T" using r by blast
  then show "reachable task src dst" by (simp add: reachable_def)
qed

lemma NewTask_wf_dag: "wf_dag (NewTask taskID url)"
  by (simp add: wf_dag_def NewTask_def acyclic_def)

lemma StorePeer_wf_dag:
  assumes "wf_dag task"
  shows "wf_dag (StorePeer task peer)"
  using assms by (auto simp: wf_dag_def StorePeer_def)

lemma AddPeerEdge_success:
  assumes "wf_dag task" and "AddPeerEdge task parent child = Inr task'"
  shows "wf_dag task' \<and> (child, parent) \<notin> (set (edges (DAG task)))\<^sup>*
     \<and> vertices (DAG task') = vertices (DAG task)
     \<and> set (edges (DAG task')) = insert (parent, child) (set (edges (DAG task)))"
proof -
  from assms(2) have ne: "parent \<noteq> child"
    and p: "parent \<in> set (vertices (DAG task))" and c: "child \<in> set (vertices (DAG task))"
    and nr: "\<not> reachable task child parent"
    and t': "task' = task\<lparr>DAG := (DAG task)\<lparr>edges := List.insert (parent, child) (edges (DAG task))\<rparr>\<rparr>"
    by (auto simp: AddPeerEdge_def split: if_splits)
  from nr reachable_iff [OF assms(1) c] have n: "(child, parent) \<notin> (set (edges (DAG task)))\<^sup>*"
    by simp
  with assms(1) p c t' show ?thesis
    by (auto simp: wf_dag_def)
qed

lemma AddPeerEdge_cycle:
  assumes "wf_dag task" and "(child, parent) \<in> (set (edges (DAG task)))\<^sup>*"
  shows "AddPeerEdge task parent child = Inl CycleError"
proof (cases "parent = child")
  case True
  then show ?thesis by (simp add: AddPeerEdge_def)
next
  case False
  with assms(2) have "(child, parent) \<in> (set (edges (DAG task)))\<^sup>+"
    by (auto simp: rtrancl_eq_or_trancl)
  then have "child \<in> Domain (set (edges (DAG task)))" and "parent \<in> Range (set (edges (DAG task)))"
    by (auto dest: tranclD tranclD2)
  with assms(1) have c: "child \<in> set (vertices (DAG task))"
    and p: "parent \<in> set (vertices (DAG task))"
    by (auto simp: wf_dag_def)
  from reachable_iff [OF assms(1) c] assms(2) have "reachable task child parent" by simp
  with False c p show ?thesis by (simp add: AddPeerEdge_def)
qed

lemma apply_graph_operation_wf_dag:
  assumes "wf_dag task"
  shows "wf_dag (apply_graph_operation task op)"
proof (cases op)
  case (OpStorePeer peer)
  with StorePeer_wf_dag [OF assms] show ?thesis by simp
next
  case (OpAddPeerEdge parent child)
  show ?thesis
  proof (cases "AddPeerEdge task parent child")
    case (Inl err)
    with OpAddPeerEdge assms show ?thesis by simp
  next
    case (Inr task')
    with OpAddPeerEdge AddPeerEdge_success [OF assms Inr] show ?thesis by simp
  qed
qed

lemma apply_graph_operations_wf_dag:
  assumes "wf_dag task"
  shows "wf_dag (apply_graph_operations task ops)"
  unfolding apply_graph_operations_def using assms
proof (induction ops arbitrary: task)
  case Nil
  then show ?case by simp
next
  case (Cons op ops)
  from Cons.IH [OF apply_graph_operation_wf_dag [OF Cons.prems]] show ?case by simp
qed

lemma topological_exists:
  assumes "finite V" and "acyclic (set es)"
  shows "\<exists>ts. distinct ts \<and> set ts = V \<and> topological es ts"
  using assms(1)
proof (induction V rule: finite_psubset_induct)
  case (psubset V)
  show ?case
  proof (cases "V = {}")
    case True
    then show ?thesis by simp
  next
    case False
    then obtain x where "x \<in> V" by blast
    have "wf (set es)" using assms(2) by (simp add: finite_acyclic_wf)
    with \<open>x \<in> V\<close> have "\<exists>z\<in>V. \<forall>y. (y, z) \<in> set es \<longrightarrow> y \<notin> V"
      unfolding wf_eq_minimal by (elim allE [of _ V] allE [of _ x]) simp
    then obtain z where z: "z \<in> V"
      and m: "\<And>y. (y, z) \<in> set es \<Longrightarrow> y \<notin> V" by blast
    from z have "V - {z} \<subset> V" by blast
    from psubset.IH [OF this] obtain ts where d: "distinct ts" and s: "set ts = V - {z}"
      and t: "topological es ts" by blast
    have a: "\<forall>e \<in> set es. snd e = z \<longrightarrow> fst e \<notin> set (z # ts)"
    proof (intro ballI impI)
      fix e assume e: "e \<in> set es" and sz: "snd e = z"
      from e have "(fst e, snd e) \<in> set es" by simp
      with sz have "(fst e, z) \<in> set es" by simp
      from m [OF this] have nv: "fst e \<notin> V" .
      with z have "fst e \<noteq> z" by blast
      moreover from nv s have "fst e \<notin> set ts" by blast
      ultimately show "fst e \<notin> set (z # ts)" by simp
    qed
    from a t have "topological es (z # ts)" by (simp only: topological.simps)
    moreover from d s have "distinct (z # ts)" by simp
    moreover from s z have "set (z # ts) = V" by auto
    ultimately have "distinct (z # ts) \<and> set (z # ts) = V \<and> topological es (z # ts)"
      by (intro conjI)
    then show ?thesis by (rule exI)
  qed
qed

text \<open>
  C2. After every sequence of \<open>StorePeer\<close> and \<open>AddPeerEdge\<close> calls on a new task, the
  graph has no cycle and a topological ordering of it exists. \<open>AddPeerEdge(p, p)\<close> fails
  with \<open>CycleError\<close> for every peer \<open>p\<close>. When \<open>parent\<close> is reachable from \<open>child\<close>,
  \<open>AddPeerEdge(parent, child)\<close> fails with \<open>CycleError\<close> and the task is unchanged. A call
  that succeeds was made when \<open>parent\<close> was not reachable from \<open>child\<close>; it adds the one
  edge and the graph stays acyclic.
\<close>

theorem AddPeerEdge_keeps_graph_acyclic:
  assumes "task = apply_graph_operations (NewTask taskID url) ops"
  shows "acyclic (set (edges (DAG task)))
    \<and> (\<exists>ts. topological_order task ts)
    \<and> AddPeerEdge task peer peer = Inl CycleError
    \<and> ((child, parent) \<in> (set (edges (DAG task)))\<^sup>* \<longrightarrow>
         AddPeerEdge task parent child = Inl CycleError
         \<and> apply_graph_operation task (OpAddPeerEdge parent child) = task)
    \<and> (\<forall>task'. AddPeerEdge task parent child = Inr task' \<longrightarrow>
         (child, parent) \<notin> (set (edges (DAG task)))\<^sup>*
         \<and> set (edges (DAG task')) = insert (parent, child) (set (edges (DAG task)))
         \<and> acyclic (set (edges (DAG task'))))"
proof -
  from apply_graph_operations_wf_dag [OF NewTask_wf_dag, of taskID url ops] assms
  have w: "wf_dag task" by simp
  then have 1: "acyclic (set (edges (DAG task)))" by (simp add: wf_dag_def)
  from topological_exists [OF _ 1, of "set (vertices (DAG task))"]
  have 2: "\<exists>ts. topological_order task ts" by (simp add: topological_order_def)
  have 3: "AddPeerEdge task peer peer = Inl CycleError" by (simp add: AddPeerEdge_def)
  have 4: "(child, parent) \<in> (set (edges (DAG task)))\<^sup>* \<longrightarrow>
         AddPeerEdge task parent child = Inl CycleError
         \<and> apply_graph_operation task (OpAddPeerEdge parent child) = task"
    using AddPeerEdge_cycle [OF w] by simp
  have 5: "\<forall>task'. AddPeerEdge task parent child = Inr task' \<longrightarrow>
         (child, parent) \<notin> (set (edges (DAG task)))\<^sup>*
         \<and> set (edges (DAG task')) = insert (parent, child) (set (edges (DAG task)))
         \<and> acyclic (set (edges (DAG task')))"
  proof (intro allI impI)
    fix task' assume a: "AddPeerEdge task parent child = Inr task'"
    from AddPeerEdge_success [OF w a] have "wf_dag task'"
      and r: "(child, parent) \<notin> (set (edges (DAG task)))\<^sup>*
        \<and> set (edges (DAG task')) = insert (parent, child) (set (edges (DAG task)))"
      by simp_all
    then have "acyclic (set (edges (DAG task')))" by (simp add: wf_dag_def)
    with r show "(child, parent) \<notin> (set (edges (DAG task)))\<^sup>*
         \<and> set (edges (DAG task')) = insert (parent, child) (set (edges (DAG task)))
         \<and> acyclic (set (edges (DAG task')))" by simp
  qed
  show ?thesis by (rule conjI [OF 1 conjI [OF 2 conjI [OF 3 conjI [OF 4 5]]]])
qed

theorem AddPeerEdge_keeps_graph_acyclic_witness:
  "example_graph = apply_graph_operations (NewTask ''task-0'' ''example.com'')
        [OpStorePeer ''a'', OpStorePeer ''b'', OpStorePeer ''c'', OpStorePeer ''a'',
         OpAddPeerEdge ''a'' ''b'', OpAddPeerEdge ''b'' ''c'', OpAddPeerEdge ''c'' ''a'',
         OpAddPeerEdge ''a'' ''d'']
   \<and> acyclic (set (edges (DAG example_graph)))
   \<and> topological_order example_graph [''a'', ''b'', ''c'']
   \<and> AddPeerEdge example_graph ''b'' ''b'' = Inl CycleError
   \<and> (''a'', ''c'') \<in> (set (edges (DAG example_graph)))\<^sup>*
   \<and> AddPeerEdge example_graph ''c'' ''a'' = Inl CycleError
   \<and> apply_graph_operation example_graph (OpAddPeerEdge ''c'' ''a'') = example_graph
   \<and> (\<exists>task'. AddPeerEdge example_graph ''a'' ''c'' = Inr task'
         \<and> set (edges (DAG task')) = insert (''a'', ''c'') (set (edges (DAG example_graph))))"
proof -
  have h: "example_graph = apply_graph_operations (NewTask ''task-0'' ''example.com'')
        [OpStorePeer ''a'', OpStorePeer ''b'', OpStorePeer ''c'', OpStorePeer ''a'',
         OpAddPeerEdge ''a'' ''b'', OpAddPeerEdge ''b'' ''c'', OpAddPeerEdge ''c'' ''a'',
         OpAddPeerEdge ''a'' ''d'']"
    by (simp add: example_graph_def apply_graph_operations_def NewTask_def StorePeer_def
          AddPeerEdge_def reachable_def PeerCount_def Children_def List.union_def List.insert_def)
  have "(''a'', ''b'') \<in> set (edges (DAG example_graph))"
    and "(''b'', ''c'') \<in> set (edges (DAG example_graph))"
    by (simp_all add: example_graph_def)
  then have r: "(''a'', ''c'') \<in> (set (edges (DAG example_graph)))\<^sup>*"
    by (meson r_into_rtrancl rtrancl_trans)
  have t: "topological_order example_graph [''a'', ''b'', ''c'']"
    by (simp add: topological_order_def example_graph_def)
  from AddPeerEdge_keeps_graph_acyclic [OF h, of "''b''" "''a''" "''c''"] r
  have 1: "acyclic (set (edges (DAG example_graph)))"
    and 2: "AddPeerEdge example_graph ''b'' ''b'' = Inl CycleError"
    and 3: "AddPeerEdge example_graph ''c'' ''a'' = Inl CycleError"
    and 4: "apply_graph_operation example_graph (OpAddPeerEdge ''c'' ''a'') = example_graph"
    by blast+
  have s: "\<exists>task'. AddPeerEdge example_graph ''a'' ''c'' = Inr task'"
    by (simp add: example_graph_def AddPeerEdge_def reachable_def PeerCount_def Children_def
          NewTask_def List.union_def List.insert_def)
  with AddPeerEdge_keeps_graph_acyclic [OF h, of "''b''" "''c''" "''a''"]
  have 5: "\<exists>task'. AddPeerEdge example_graph ''a'' ''c'' = Inr task'
         \<and> set (edges (DAG task')) = insert (''a'', ''c'') (set (edges (DAG example_graph)))"
    by blast
  show ?thesis
    by (rule conjI [OF h conjI [OF 1 conjI [OF t conjI [OF 2 conjI [OF r conjI [OF 3 conjI [OF 4 5]]]]]]])
qed

section \<open>Priority resolution\<close>

lemma find_first:
  assumes "\<forall>x \<in> set pre. \<not> P x" and "P y"
  shows "find P (pre @ y # post) = Some y"
  using assms by (induction pre) auto

lemma find_none:
  assumes "\<forall>x \<in> set xs. \<not> P x"
  shows "find P xs = None"
  using assms by (simp add: find_None_iff)

text \<open>
  C6. \<open>GetPriority\<close> returns a priority on every input. The result is the lowest level
  when the lookup fails, when the application list is empty, when no application has the
  label of the peer, and when the first application with that label has no priority. When
  that application has a priority, the result is the value of the first override, in list
  order, whose regex matches the URL of the task, and the default value of the application
  when no override matches.
\<close>

theorem GetPriority_resolution:
  "GetPriority matches peer (Inl err) = Priority_LEVEL0
   \<and> GetPriority matches peer (Inr []) = Priority_LEVEL0
   \<and> ((\<forall>a \<in> set apps. Name a \<noteq> Application peer) \<longrightarrow>
         GetPriority matches peer (Inr apps) = Priority_LEVEL0)
   \<and> ((\<forall>a \<in> set pre. Name a \<noteq> Application peer) \<and> Name app = Application peer \<longrightarrow>
         (Priority app = None \<longrightarrow>
            GetPriority matches peer (Inr (pre @ app # post)) = Priority_LEVEL0)
       \<and> (\<forall>priority. Priority app = Some priority \<longrightarrow>
            (\<forall>us u vs. Urls priority = us @ u # vs
                 \<and> (\<forall>x \<in> set us. \<not> matches (Regex x) (URL (Task peer)))
                 \<and> matches (Regex u) (URL (Task peer)) \<longrightarrow>
               GetPriority matches peer (Inr (pre @ app # post)) = url_Value u)
          \<and> ((\<forall>x \<in> set (Urls priority). \<not> matches (Regex x) (URL (Task peer))) \<longrightarrow>
               GetPriority matches peer (Inr (pre @ app # post)) = Value priority)))"
proof -
  have 1: "GetPriority matches peer (Inl err) = Priority_LEVEL0"
    by (simp add: GetPriority_def)
  have 2: "GetPriority matches peer (Inr []) = Priority_LEVEL0"
    by (simp add: GetPriority_def)
  have 3: "(\<forall>a \<in> set apps. Name a \<noteq> Application peer) \<longrightarrow>
         GetPriority matches peer (Inr apps) = Priority_LEVEL0"
    by (simp add: GetPriority_def find_none)
  have 4: "(Priority app = None \<longrightarrow>
            GetPriority matches peer (Inr (pre @ app # post)) = Priority_LEVEL0)
       \<and> (\<forall>priority. Priority app = Some priority \<longrightarrow>
            (\<forall>us u vs. Urls priority = us @ u # vs
                 \<and> (\<forall>x \<in> set us. \<not> matches (Regex x) (URL (Task peer)))
                 \<and> matches (Regex u) (URL (Task peer)) \<longrightarrow>
               GetPriority matches peer (Inr (pre @ app # post)) = url_Value u)
          \<and> ((\<forall>x \<in> set (Urls priority). \<not> matches (Regex x) (URL (Task peer))) \<longrightarrow>
               GetPriority matches peer (Inr (pre @ app # post)) = Value priority))"
    if a: "(\<forall>a \<in> set pre. Name a \<noteq> Application peer) \<and> Name app = Application peer"
  proof -
    from a have f: "find (\<lambda>a. Name a = Application peer) (pre @ app # post) = Some app"
      by (intro find_first) simp_all
    show ?thesis
    proof (intro conjI allI impI)
      assume "Priority app = None"
      with f show "GetPriority matches peer (Inr (pre @ app # post)) = Priority_LEVEL0"
        by (simp add: GetPriority_def)
    next
      fix priority us u vs
      assume p: "Priority app = Some priority"
        and u: "Urls priority = us @ u # vs
                 \<and> (\<forall>x \<in> set us. \<not> matches (Regex x) (URL (Task peer)))
                 \<and> matches (Regex u) (URL (Task peer))"
      then have "find (\<lambda>u. matches (Regex u) (URL (Task peer))) (us @ u # vs) = Some u"
        by (intro find_first) simp_all
      with f p u show "GetPriority matches peer (Inr (pre @ app # post)) = url_Value u"
        by (simp add: GetPriority_def)
    next
      fix priority
      assume p: "Priority app = Some priority"
        and n: "\<forall>x \<in> set (Urls priority). \<not> matches (Regex x) (URL (Task peer))"
      from n have "find (\<lambda>u. matches (Regex u) (URL (Task peer))) (Urls priority) = None"
        by (intro find_none) simp
      with f p show "GetPriority matches peer (Inr (pre @ app # post)) = Value priority"
        by (simp add: GetPriority_def)
    qed
  qed
  from 1 2 3 4 show ?thesis by blast
qed

theorem GetPriority_resolution_witness:
  "GetPriority contains (test_peer '''' ''example.com'') (Inl (LookupError ''bas'')) = Priority_LEVEL0
   \<and> GetPriority contains (test_peer '''' ''example.com'') (Inr []) = Priority_LEVEL0
   \<and> GetPriority contains (test_peer '''' ''example.com'')
         (Inr [\<lparr>Name = ''baw'', Priority = None\<rparr>]) = Priority_LEVEL0
   \<and> GetPriority contains (test_peer ''bae'' ''example.com'')
         (Inr [\<lparr>Name = ''bae'', Priority = None\<rparr>]) = Priority_LEVEL0
   \<and> GetPriority contains (test_peer ''baz'' ''example.com'')
         (Inr [\<lparr>Name = ''baz'', Priority = Some \<lparr>Value = Priority_LEVEL1, Urls = []\<rparr>\<rparr>])
       = Priority_LEVEL1
   \<and> contains ''am'' ''example.com''
   \<and> GetPriority contains (test_peer ''bak'' ''example.com'') (Inr [test_application])
       = Priority_LEVEL2"
proof -
  note r = GetPriority_resolution [where matches = contains]
  have 1: "GetPriority contains (test_peer '''' ''example.com'') (Inl (LookupError ''bas''))
      = Priority_LEVEL0"
    using r [of "test_peer '''' ''example.com''" "LookupError ''bas''"] by blast
  have 2: "GetPriority contains (test_peer '''' ''example.com'') (Inr []) = Priority_LEVEL0"
    using r [of "test_peer '''' ''example.com''"] by blast
  have "\<forall>a \<in> set [\<lparr>Name = ''baw'', Priority = None\<rparr>].
      Name a \<noteq> Application (test_peer '''' ''example.com'')"
    by (simp add: test_peer_def)
  with r [of "test_peer '''' ''example.com''" _ "[\<lparr>Name = ''baw'', Priority = None\<rparr>]"]
  have 3: "GetPriority contains (test_peer '''' ''example.com'')
         (Inr [\<lparr>Name = ''baw'', Priority = None\<rparr>]) = Priority_LEVEL0"
    by blast
  have "(\<forall>a \<in> set []. Name a \<noteq> Application (test_peer ''bae'' ''example.com''))
      \<and> Name \<lparr>Name = ''bae'', Priority = None\<rparr> = Application (test_peer ''bae'' ''example.com'')
      \<and> Priority \<lparr>Name = ''bae'', Priority = None\<rparr> = None"
    by (simp add: test_peer_def)
  with r [of "test_peer ''bae'' ''example.com''" _ _ "[]" "\<lparr>Name = ''bae'', Priority = None\<rparr>" "[]"]
  have 4: "GetPriority contains (test_peer ''bae'' ''example.com'')
         (Inr [\<lparr>Name = ''bae'', Priority = None\<rparr>]) = Priority_LEVEL0"
    by simp
  have "(\<forall>a \<in> set []. Name a \<noteq> Application (test_peer ''baz'' ''example.com''))
      \<and> Name \<lparr>Name = ''baz'', Priority = Some \<lparr>Value = Priority_LEVEL1, Urls = []\<rparr>\<rparr>
          = Application (test_peer ''baz'' ''example.com'')"
    by (simp add: test_peer_def)
  with r [of "test_peer ''baz'' ''example.com''" _ _ "[]"
        "\<lparr>Name = ''baz'', Priority = Some \<lparr>Value = Priority_LEVEL1, Urls = []\<rparr>\<rparr>" "[]"]
  have 5: "GetPriority contains (test_peer ''baz'' ''example.com'')
         (Inr [\<lparr>Name = ''baz'', Priority = Some \<lparr>Value = Priority_LEVEL1, Urls = []\<rparr>\<rparr>])
       = Priority_LEVEL1"
    by simp
  have m: "contains ''am'' ''example.com''" by simp
  have h: "(\<forall>a \<in> set []. Name a \<noteq> Application (test_peer ''bak'' ''example.com''))
      \<and> Name test_application = Application (test_peer ''bak'' ''example.com'')"
    by (simp add: test_peer_def test_application_def)
  have p: "Priority test_application = Some \<lparr>Value = Priority_LEVEL1,
                       Urls = [\<lparr>Regex = ''am'', url_Value = Priority_LEVEL2\<rparr>]\<rparr>"
    by (simp add: test_application_def)
  have u: "Urls \<lparr>Value = Priority_LEVEL1,
                       Urls = [\<lparr>Regex = ''am'', url_Value = Priority_LEVEL2\<rparr>]\<rparr>
        = [] @ \<lparr>Regex = ''am'', url_Value = Priority_LEVEL2\<rparr> # []
      \<and> (\<forall>x \<in> set []. \<not> contains (Regex x) (URL (Task (test_peer ''bak'' ''example.com''))))
      \<and> contains (Regex \<lparr>Regex = ''am'', url_Value = Priority_LEVEL2\<rparr>)
            (URL (Task (test_peer ''bak'' ''example.com'')))"
    by (simp add: test_peer_def NewTask_def)
  from r [of "test_peer ''bak'' ''example.com''" _ _ "[]" test_application "[]"] h p
  have "\<forall>us u vs. Urls \<lparr>Value = Priority_LEVEL1,
                       Urls = [\<lparr>Regex = ''am'', url_Value = Priority_LEVEL2\<rparr>]\<rparr> = us @ u # vs
                 \<and> (\<forall>x \<in> set us. \<not> contains (Regex x) (URL (Task (test_peer ''bak'' ''example.com''))))
                 \<and> contains (Regex u) (URL (Task (test_peer ''bak'' ''example.com''))) \<longrightarrow>
               GetPriority contains (test_peer ''bak'' ''example.com'') (Inr ([] @ test_application # []))
                 = url_Value u"
    by blast
  with u have 6: "GetPriority contains (test_peer ''bak'' ''example.com'') (Inr [test_application])
       = Priority_LEVEL2"
    by fastforce
  show ?thesis
    by (rule conjI [OF 1 conjI [OF 2 conjI [OF 3 conjI [OF 4 conjI [OF 5 conjI [OF m 6]]]]]])
qed

section \<open>Piece download and digest verification\<close>

lemmas [simp del] = decimal.simps ReadAll.simps

lemma ReadAll_verifying:
  "ReadAll md5sum n \<lparr>unread = u, hashed = h, verify = Some d\<rparr> =
     (u, if piece_digest md5sum (h @ u) = d then None else Some DigestMismatchError)"
proof (induction u arbitrary: h rule: length_induct)
  case (1 u)
  show ?case
  proof (cases "u = []")
    case True
    then show ?thesis by (simp add: ReadAll.simps [of md5sum n] Read_def)
  next
    case False
    then have "length (drop (Suc n) u) < length u" by simp
    with 1 have "ReadAll md5sum n \<lparr>unread = drop (Suc n) u, hashed = h @ take (Suc n) u, verify = Some d\<rparr>
       = (drop (Suc n) u,
          if piece_digest md5sum ((h @ take (Suc n) u) @ drop (Suc n) u) = d then None
          else Some DigestMismatchError)"
      by blast
    with False show ?thesis
      by (simp add: ReadAll.simps [of md5sum n "\<lparr>unread = u, hashed = h, verify = Some d\<rparr>"] Read_def)
  qed
qed

lemma Reads_no_EOF:
  assumes "piece_digest md5sum (h @ u) \<noteq> d"
  shows "EOF \<notin> set (Reads md5sum ns \<lparr>unread = u, hashed = h, verify = Some d\<rparr>)"
  using assms
proof (induction ns arbitrary: u h)
  case Nil
  then show ?case by simp
next
  case (Cons n ns)
  show ?case
  proof (cases "u = []")
    case True
    with Cons.prems Cons.IH [of h "[]"] show ?thesis
      by (simp add: Read_def)
  next
    case False
    from Cons.prems have "piece_digest md5sum ((h @ take n u) @ drop n u) \<noteq> d" by simp
    from Cons.IH [OF this] False show ?thesis
      by (simp add: Read_def)
  qed
qed

lemma Reads_final:
  assumes "length u \<le> sum_list ns" and "piece_digest md5sum (h @ u) \<noteq> d"
  shows "last (Reads md5sum (ns @ [k]) \<lparr>unread = u, hashed = h, verify = Some d\<rparr>)
           = ReadError DigestMismatchError"
  using assms
proof (induction ns arbitrary: u h)
  case Nil
  then show ?case by (simp add: Read_def)
next
  case (Cons n ns)
  have ne: "Reads md5sum (ns @ [k]) r \<noteq> []" for r
    by (cases ns) (simp_all split: prod.splits)
  show ?case
  proof (cases "u = []")
    case True
    with Cons.prems Cons.IH [of "[]" h] ne show ?thesis
      by (simp add: Read_def)
  next
    case False
    from Cons.prems have l: "length (drop n u) \<le> sum_list ns"
      and p: "piece_digest md5sum ((h @ take n u) @ drop n u) \<noteq> d" by simp_all
    from Cons.IH [OF l p] False ne show ?thesis
      by (simp add: Read_def)
  qed
qed

lemma test_digest: "piece_digest test_md5sum ''test test '' = ''8f902bcf0625cd1af73789bf207c3880''"
  by (simp add: piece_digest_def test_md5sum_def hex_encode_def digit_def)

lemma test_sent:
  "test_server \<lparr>verb = ''GET'', host = DstAddr (test_request digest),
         path = ''/download/'' @ take 3 (TaskID (test_request digest)) @ ''/''
                  @ TaskID (test_request digest),
         headers = [(''Range'',
            ''bytes='' @ decimal (unat (RangeStart (piece (test_request digest)))) @ ''-''
              @ decimal (unat (RangeStart (piece (test_request digest))
                   + ucast (RangeSize (piece (test_request digest))) - 1)))]\<rparr>
       = Inr \<lparr>status = 200, body = ''test test ''\<rparr>"
  by (simp add: test_server_def test_request_def)

lemma test_build:
  "build_request (test_request digest) =
     \<lparr>verb = ''GET'', host = ''127.0.0.1:65001'', path = ''/download/tas/task-0'',
      headers = [(''Range'', ''bytes=0-9'')]\<rparr>"
  by (simp add: build_request_def test_request_def decimal.simps [of 0] decimal.simps [of 9] digit_def)

text \<open>
  C7. The destination answers the \<^verbatim>\<open>GET\<close> of \<^verbatim>\<open>/download/<taskID[0:3]>/<taskID>\<close> with
  the header \<^verbatim>\<open>Range: bytes=<start>-<start+size-1>\<close> by the status 200 or 206 and a body,
  the digest is requested and the expected digest is the digest of that body. Then
  \<open>DownloadPiece\<close> returns a stream without an error, and draining the stream yields the
  body unchanged and no error. Nothing is assumed of the destination on other requests, so
  the request sent is that one.
\<close>

theorem DownloadPiece_verified:
  assumes "server \<lparr>verb = ''GET'', host = DstAddr req,
         path = ''/download/'' @ take 3 (TaskID req) @ ''/'' @ TaskID req,
         headers = [(''Range'',
            ''bytes='' @ decimal (unat (RangeStart (piece req))) @ ''-''
              @ decimal (unat (RangeStart (piece req) + ucast (RangeSize (piece req)) - 1)))]\<rparr>
       = Inr \<lparr>status = st, body = content\<rparr>"
    and "st = 200 \<or> st = 206" and "CalcDigest req"
    and "PieceMd5 (piece req) = piece_digest md5sum content"
  shows "\<exists>r. DownloadPiece md5sum server req = Inr r \<and> ReadAll md5sum n r = (content, None)"
proof -
  from assms have "DownloadPiece md5sum server req
      = Inr \<lparr>unread = content, hashed = [], verify = Some (piece_digest md5sum content)\<rparr>"
    by (auto simp: DownloadPiece_def build_request_def)
  moreover have "ReadAll md5sum n \<lparr>unread = content, hashed = [], verify = Some (piece_digest md5sum content)\<rparr>
      = (content, None)"
    by (simp add: ReadAll_verifying)
  ultimately show ?thesis by simp
qed

theorem DownloadPiece_verified_witness:
  "build_request (test_request ''8f902bcf0625cd1af73789bf207c3880'') =
     \<lparr>verb = ''GET'', host = ''127.0.0.1:65001'', path = ''/download/tas/task-0'',
      headers = [(''Range'', ''bytes=0-9'')]\<rparr>
   \<and> test_server (build_request (test_request ''8f902bcf0625cd1af73789bf207c3880''))
       = Inr \<lparr>status = 200, body = ''test test ''\<rparr>
   \<and> PieceMd5 (piece (test_request ''8f902bcf0625cd1af73789bf207c3880''))
       = piece_digest test_md5sum ''test test ''
   \<and> (\<exists>r. DownloadPiece test_md5sum test_server (test_request ''8f902bcf0625cd1af73789bf207c3880'')
            = Inr r
          \<and> ReadAll test_md5sum 511 r = (''test test '', None))"
proof -
  let ?req = "test_request ''8f902bcf0625cd1af73789bf207c3880''"
  have b: "build_request ?req =
     \<lparr>verb = ''GET'', host = ''127.0.0.1:65001'', path = ''/download/tas/task-0'',
      headers = [(''Range'', ''bytes=0-9'')]\<rparr>"
    by (rule test_build)
  have s: "test_server (build_request ?req) = Inr \<lparr>status = 200, body = ''test test ''\<rparr>"
    by (simp add: b test_server_def)
  have c: "CalcDigest ?req" by (simp add: test_request_def)
  have d: "PieceMd5 (piece ?req) = piece_digest test_md5sum ''test test ''"
    by (simp add: test_digest test_request_def)
  have o: "(200 :: nat) = 200 \<or> (200 :: nat) = 206" by simp
  from DownloadPiece_verified [where server = test_server and req = "?req" and st = 200
      and content = "''test test ''" and md5sum = test_md5sum and n = 511, OF test_sent o c d]
  have "\<exists>r. DownloadPiece test_md5sum test_server ?req = Inr r
          \<and> ReadAll test_md5sum 511 r = (''test test '', None)"
    by simp
  with b s d show ?thesis by blast
qed

text \<open>
  C8. The destination answers as in C7, the digest is requested and the expected digest
  is not the digest of the body served. Then draining the stream ends in the digest
  mismatch error; no read of the stream, with whatever buffer sizes, returns the end of the
  stream; and the read that follows the last byte returns the mismatch error.
\<close>

theorem DownloadPiece_digest_mismatch:
  assumes "server \<lparr>verb = ''GET'', host = DstAddr req,
         path = ''/download/'' @ take 3 (TaskID req) @ ''/'' @ TaskID req,
         headers = [(''Range'',
            ''bytes='' @ decimal (unat (RangeStart (piece req))) @ ''-''
              @ decimal (unat (RangeStart (piece req) + ucast (RangeSize (piece req)) - 1)))]\<rparr>
       = Inr \<lparr>status = st, body = content\<rparr>"
    and "st = 200 \<or> st = 206" and "CalcDigest req"
    and "PieceMd5 (piece req) \<noteq> piece_digest md5sum content"
  shows "\<exists>r. DownloadPiece md5sum server req = Inr r
     \<and> ReadAll md5sum n r = (content, Some DigestMismatchError)
     \<and> EOF \<notin> set (Reads md5sum ns r)
     \<and> (length content \<le> sum_list ns \<longrightarrow>
          last (Reads md5sum (ns @ [k]) r) = ReadError DigestMismatchError)"
proof -
  let ?r = "\<lparr>unread = content, hashed = [], verify = Some (PieceMd5 (piece req))\<rparr>"
  from assms(4) have ne: "piece_digest md5sum ([] @ content) \<noteq> PieceMd5 (piece req)" by auto
  from assms have d: "DownloadPiece md5sum server req = Inr ?r"
    by (auto simp: DownloadPiece_def build_request_def)
  from ne have a: "ReadAll md5sum n ?r = (content, Some DigestMismatchError)"
    by (simp add: ReadAll_verifying)
  from Reads_no_EOF [OF ne] have e: "EOF \<notin> set (Reads md5sum ns ?r)" .
  have f: "length content \<le> sum_list ns \<longrightarrow>
          last (Reads md5sum (ns @ [k]) ?r) = ReadError DigestMismatchError"
    using Reads_final [OF _ ne] by blast
  from d a e f show ?thesis by blast
qed

theorem DownloadPiece_digest_mismatch_witness:
  "test_server (build_request (test_request ''00000000000000000000000000000000''))
       = Inr \<lparr>status = 200, body = ''test test ''\<rparr>
   \<and> PieceMd5 (piece (test_request ''00000000000000000000000000000000''))
       \<noteq> piece_digest test_md5sum ''test test ''
   \<and> (\<exists>r. DownloadPiece test_md5sum test_server (test_request ''00000000000000000000000000000000'')
            = Inr r
          \<and> ReadAll test_md5sum 511 r = (''test test '', Some DigestMismatchError)
          \<and> EOF \<notin> set (Reads test_md5sum [4, 4, 4] r)
          \<and> last (Reads test_md5sum ([4, 4, 4] @ [4]) r) = ReadError DigestMismatchError)"
proof -
  let ?req = "test_request ''00000000000000000000000000000000''"
  have s: "test_server (build_request ?req) = Inr \<lparr>status = 200, body = ''test test ''\<rparr>"
    by (simp add: test_build test_server_def)
  have c: "CalcDigest ?req" by (simp add: test_request_def)
  have d: "PieceMd5 (piece ?req) \<noteq> piece_digest test_md5sum ''test test ''"
    by (simp add: test_digest test_request_def)
  have l: "length ''test test '' \<le> sum_list [4, 4, 4]" by simp
  have o: "(200 :: nat) = 200 \<or> (200 :: nat) = 206" by simp
  from DownloadPiece_digest_mismatch [where server = test_server and req = "?req" and st = 200
      and content = "''test test ''" and md5sum = test_md5sum and n = 511 and ns = "[4, 4, 4]" and k = 4,
      OF test_sent o c d] l
  have "\<exists>r. DownloadPiece test_md5sum test_server ?req = Inr r
          \<and> ReadAll test_md5sum 511 r = (''test test '', Some DigestMismatchError)
          \<and> EOF \<notin> set (Reads test_md5sum [4, 4, 4] r)
          \<and> last (Reads test_md5sum ([4, 4, 4] @ [4]) r) = ReadError DigestMismatchError"
    by simp
  with s d show ?thesis by blast
qed

end
